theory Spec2Isabelle
  imports Main "HOL-Library.Word" "HOL-Library.Sublist"
begin

section \<open>Values and errors\<close>

text \<open>
  A Go \<^verbatim>\<open>[]byte\<close> is either the nil slice or a (possibly empty) sequence of bytes; the
  store compares slices with nil in several places (\<^verbatim>\<open>data == nil\<close>, \<^verbatim>\<open>b != nil\<close>), so the
  model keeps the difference: \<open>None\<close> is nil, \<open>Some bs\<close> a non-nil slice. \<open>content\<close> is
  the byte sequence a slice holds, which is what \<^verbatim>\<open>bytes.Compare\<close> and a file write see.
\<close>

type_synonym byte = "8 word"
type_synonym bytes = "byte list option"

definition content :: "bytes \<Rightarrow> byte list" where
  "content b = (case b of None \<Rightarrow> [] | Some bs \<Rightarrow> bs)"

text \<open>
  The error numbers the operating system reports in this model, and the error values of
  the package: its four sentinels and an error of the \<^verbatim>\<open>os\<close> package, passed on as it is.
\<close>

datatype errno = ENOENT | ENOTDIR | EISDIR | EACCES

datatype error =
    ErrInvalidHash
  | ErrLimiterDenied
  | ErrDoesNotExist
  | ErrAlreadyExist
  | OsError errno

section \<open>The file system the store runs on\<close>

text \<open>
  The store reaches the disk through \<^verbatim>\<open>filepath.Join\<close>, \<^verbatim>\<open>os.MkdirAll\<close>, \<^verbatim>\<open>os.Create\<close>,
  \<^verbatim>\<open>File.Write\<close>, \<^verbatim>\<open>os.Open\<close> and \<^verbatim>\<open>ioutil.ReadAll\<close>. They are not code of the package; this
  section models the part of their documented behaviour that the store can observe.

  A path is the list of its components below the file-system root, already resolved (the
  directory a Go path string denotes; symbolic links are not modelled). A node is a
  directory or a regular file; the flag of a file says whether this process may open it
  (\<open>False\<close>: the open fails with \<open>EACCES\<close>). A disk maps the paths that exist to their
  nodes. Names too long for the file system, names with a NUL character (which the
  system calls refuse), a full disk and permissions of directories are not modelled.
\<close>

type_synonym path = "string list"

datatype node = Dir | File bool "byte list"

type_synonym filesystem = "path \<Rightarrow> node option"

definition Separator :: char where
  "Separator = CHR ''/''"

text \<open>Splitting a path element at the separators.\<close>

fun split_sep :: "string \<Rightarrow> string \<Rightarrow> string list" where
  "split_sep acc [] = [rev acc]"
| "split_sep acc (c # cs) =
     (if c = Separator then rev acc # split_sep [] cs else split_sep (c # acc) cs)"

text \<open>
  \<^verbatim>\<open>filepath.Join(dir, elem)\<close>: the elements are joined with the separator and the result is
  cleaned (\<^verbatim>\<open>filepath.Clean\<close>): an empty component and \<^verbatim>\<open>.\<close> are dropped, \<^verbatim>\<open>..\<close> removes the
  component before it, and the parent of the root is the root.
\<close>

definition clean_step :: "path \<Rightarrow> string \<Rightarrow> path" where
  "clean_step dir c =
     (if c = [] \<or> c = ''.'' then dir else if c = ''..'' then butlast dir else dir @ [c])"

definition Join :: "path \<Rightarrow> string \<Rightarrow> path" where
  "Join dir elem = foldl clean_step dir (split_sep [] elem)"

text \<open>
  Path resolution as the kernel does it: every component on the way must be a directory.
\<close>

fun walk :: "filesystem \<Rightarrow> path \<Rightarrow> string list \<Rightarrow> errno + node" where
  "walk fs cur [] = (case fs cur of None \<Rightarrow> Inl ENOENT | Some n \<Rightarrow> Inr n)"
| "walk fs cur (c # cs) =
     (case fs cur of
        None \<Rightarrow> Inl ENOENT
      | Some Dir \<Rightarrow> walk fs (cur @ [c]) cs
      | Some (File a bs) \<Rightarrow> Inl ENOTDIR)"

definition stat :: "filesystem \<Rightarrow> path \<Rightarrow> errno + node" where
  "stat fs p = walk fs [] p"

text \<open>
  \<^verbatim>\<open>os.MkdirAll(path, 0755)\<close> creates the directory and every missing parent, does nothing
  where a directory exists, and fails with \<open>ENOTDIR\<close> where a component is a regular file.
\<close>

fun mkdirs :: "filesystem \<Rightarrow> path \<Rightarrow> string list \<Rightarrow> errno + filesystem" where
  "mkdirs fs cur [] =
     (case fs cur of
        Some (File a bs) \<Rightarrow> Inl ENOTDIR
      | _ \<Rightarrow> Inr (fs(cur \<mapsto> Dir)))"
| "mkdirs fs cur (c # cs) =
     (case fs cur of
        Some (File a bs) \<Rightarrow> Inl ENOTDIR
      | _ \<Rightarrow> mkdirs (fs(cur \<mapsto> Dir)) (cur @ [c]) cs)"

definition MkdirAll :: "filesystem \<Rightarrow> path \<Rightarrow> errno + filesystem" where
  "MkdirAll fs p = mkdirs fs [] p"

text \<open>
  \<^verbatim>\<open>os.Create(name)\<close> opens the file for reading and writing, creates it when it is missing
  and truncates it otherwise. It fails on a directory (\<open>EISDIR\<close>), on a file this process
  may not open (\<open>EACCES\<close>) and where the parent is not a directory. \<open>Write\<close> is
  \<^verbatim>\<open>fh.Write(data)\<close> on the handle \<^verbatim>\<open>os.Create\<close> returned.
\<close>

definition Create :: "filesystem \<Rightarrow> path \<Rightarrow> errno + filesystem" where
  "Create fs p =
     (case stat fs p of
        Inr Dir \<Rightarrow> Inl EISDIR
      | Inr (File a bs) \<Rightarrow> if a then Inr (fs(p \<mapsto> File True [])) else Inl EACCES
      | Inl ENOENT \<Rightarrow>
          (case stat fs (butlast p) of
             Inr Dir \<Rightarrow> Inr (fs(p \<mapsto> File True []))
           | Inr (File a bs) \<Rightarrow> Inl ENOTDIR
           | Inl e \<Rightarrow> Inl e)
      | Inl e \<Rightarrow> Inl e)"

definition Write :: "filesystem \<Rightarrow> path \<Rightarrow> bytes \<Rightarrow> filesystem" where
  "Write fs p data = fs(p \<mapsto> File True (content data))"

text \<open>
  \<^verbatim>\<open>os.Open(name)\<close> opens for reading; a directory can be opened, and the handle is the
  node found. \<^verbatim>\<open>ioutil.ReadAll\<close> returns the bytes read, never a nil slice, and on a
  directory the error \<open>EISDIR\<close> with the (empty) bytes read so far.
\<close>

definition Open :: "filesystem \<Rightarrow> path \<Rightarrow> errno + node" where
  "Open fs p =
     (case stat fs p of
        Inl e \<Rightarrow> Inl e
      | Inr Dir \<Rightarrow> Inr Dir
      | Inr (File a bs) \<Rightarrow> if a then Inr (File a bs) else Inl EACCES)"

definition ReadAll :: "node \<Rightarrow> bytes \<times> error option" where
  "ReadAll fh =
     (case fh of
        Dir \<Rightarrow> (Some [], Some (OsError EISDIR))
      | File a bs \<Rightarrow> (Some bs, None))"

section \<open>The caches\<close>

subsection \<open>CacheAll\<close>

record CacheAll =
  ca_m :: "string \<Rightarrow> bytes option"

definition NewCacheAll :: CacheAll where
  "NewCacheAll = \<lparr>ca_m = Map.empty\<rparr>"

definition CacheAll_SeePut :: "CacheAll \<Rightarrow> string \<Rightarrow> bytes \<Rightarrow> CacheAll" where
  "CacheAll_SeePut c hash data =
     (if data = None then c else c\<lparr>ca_m := (ca_m c)(hash \<mapsto> data)\<rparr>)"

definition CacheAll_Get :: "CacheAll \<Rightarrow> string \<Rightarrow> bytes" where
  "CacheAll_Get c hash = (case ca_m c hash of Some el \<Rightarrow> el | None \<Rightarrow> None)"

subsection \<open>CacheMostRecent\<close>

text \<open>
  The recency cache holds a \<^verbatim>\<open>container/list\<close> list of elements and a map from a hash to a
  pointer to its list element; \<^verbatim>\<open>SeePut\<close> and \<^verbatim>\<open>SeeGet\<close> write through these pointers. The
  model keeps the pointers: an element is an address, \<open>cm_l\<close> is the list (front first),
  \<open>cm_Value\<close> the \<^verbatim>\<open>Value\<close> each element holds, \<open>cm_m\<close> the map, and \<open>cm_next\<close> the
  address the next \<^verbatim>\<open>PushFront\<close> allocates.
\<close>

type_synonym ptr = nat

record cacheElem =
  el_hash :: string
  el_data :: bytes

record CacheMostRecent =
  cm_m :: "string \<Rightarrow> ptr option"
  cm_l :: "ptr list"
  cm_Value :: "ptr \<Rightarrow> cacheElem"
  capacity :: int
  cm_next :: ptr

definition NewCacheMostRecent :: "int \<Rightarrow> CacheMostRecent option" where
  "NewCacheMostRecent cap =
     (if cap \<le> 0 then None
      else Some \<lparr>cm_m = Map.empty, cm_l = [],
                 cm_Value = (\<lambda>p. \<lparr>el_hash = [], el_data = None\<rparr>),
                 capacity = cap, cm_next = 0\<rparr>)"

text \<open>
  \<^verbatim>\<open>l.MoveToFront(e)\<close>: the list is not modified when \<open>e\<close> is not an element of it.
\<close>

definition MoveToFront :: "ptr list \<Rightarrow> ptr \<Rightarrow> ptr list" where
  "MoveToFront l e = (if e \<in> set l then e # remove1 e l else l)"

text \<open>
  \<^verbatim>\<open>SeeGet\<close>. Below capacity a new element is pushed to the front. At capacity the tail
  element is given the new value and moved to the front, the index entry of the hash it
  held is deleted and the new hash is indexed. \<^verbatim>\<open>l.Back()\<close> of an empty list is nil and
  the next line dereferences it: the result \<open>None\<close> is that panic.
\<close>

definition CacheMostRecent_SeeGet :: "CacheMostRecent \<Rightarrow> string \<Rightarrow> bytes \<Rightarrow> CacheMostRecent option" where
  "CacheMostRecent_SeeGet c hash data =
     (if int (length (cm_l c)) < capacity c then
        (let listEl = cm_next c in
         Some (c\<lparr>cm_l := listEl # cm_l c,
                 cm_Value := (cm_Value c)(listEl := \<lparr>el_hash = hash, el_data = data\<rparr>),
                 cm_m := (cm_m c)(hash \<mapsto> listEl),
                 cm_next := Suc listEl\<rparr>))
      else
        (case cm_l c of
           [] \<Rightarrow> None
         | x # xs \<Rightarrow>
            (let tail = last (cm_l c);
                 tailVal = cm_Value c tail
             in Some (c\<lparr>cm_Value := (cm_Value c)(tail := \<lparr>el_hash = hash, el_data = data\<rparr>),
                        cm_l := MoveToFront (cm_l c) tail,
                        cm_m := ((cm_m c)(el_hash tailVal := None))(hash \<mapsto> tail)\<rparr>))))"

definition CacheMostRecent_SeePut :: "CacheMostRecent \<Rightarrow> string \<Rightarrow> bytes \<Rightarrow> CacheMostRecent" where
  "CacheMostRecent_SeePut c hash data =
     (case cm_m c hash of
        Some listEl \<Rightarrow>
          c\<lparr>cm_Value := (cm_Value c)(listEl := \<lparr>el_hash = hash, el_data = data\<rparr>)\<rparr>
      | None \<Rightarrow> c)"

definition CacheMostRecent_Get :: "CacheMostRecent \<Rightarrow> string \<Rightarrow> bytes \<times> CacheMostRecent" where
  "CacheMostRecent_Get c hash =
     (case cm_m c hash of
        Some cacheEl \<Rightarrow>
          (el_data (cm_Value c cacheEl), c\<lparr>cm_l := MoveToFront (cm_l c) cacheEl\<rparr>)
      | None \<Rightarrow> (None, c))"

text \<open>The entries of the cache in recency order, most recent first.\<close>

definition entries :: "CacheMostRecent \<Rightarrow> cacheElem list" where
  "entries c = map (cm_Value c) (cm_l c)"

subsection \<open>The Cache interface\<close>

text \<open>
  A \<^verbatim>\<open>Cache\<close> held by a store is one of the two implementations of the package. Both
  have \<^verbatim>\<open>SeePut\<close>, so both are an \<^verbatim>\<open>InsertionCache\<close>; only \<^verbatim>\<open>CacheMostRecent\<close> has
  \<^verbatim>\<open>SeeGet\<close> and is a \<^verbatim>\<open>RetrievalCache\<close>.
\<close>

datatype cache = CacheAllPtr CacheAll | CacheMostRecentPtr CacheMostRecent

fun cache_Get :: "cache \<Rightarrow> string \<Rightarrow> bytes \<times> cache" where
  "cache_Get (CacheAllPtr c) hash = (CacheAll_Get c hash, CacheAllPtr c)"
| "cache_Get (CacheMostRecentPtr c) hash =
     (case CacheMostRecent_Get c hash of (b, c') \<Rightarrow> (b, CacheMostRecentPtr c'))"

fun cache_SeePut :: "cache \<Rightarrow> string \<Rightarrow> bytes \<Rightarrow> cache" where
  "cache_SeePut (CacheAllPtr c) hash data = CacheAllPtr (CacheAll_SeePut c hash data)"
| "cache_SeePut (CacheMostRecentPtr c) hash data =
     CacheMostRecentPtr (CacheMostRecent_SeePut c hash data)"

section \<open>The inventory\<close>

record DefaultInventory =
  inv_m :: "string \<Rightarrow> unit option"

definition NewDefaultInventory :: DefaultInventory where
  "NewDefaultInventory = \<lparr>inv_m = Map.empty\<rparr>"

definition See :: "DefaultInventory \<Rightarrow> string \<Rightarrow> DefaultInventory" where
  "See i hash = i\<lparr>inv_m := (inv_m i)(hash \<mapsto> ())\<rparr>"

definition Has :: "DefaultInventory \<Rightarrow> string \<Rightarrow> bool" where
  "Has i hash = (inv_m i hash \<noteq> None)"

section \<open>The store\<close>

text \<open>
  Each accepted \<^verbatim>\<open>Put\<close> starts a goroutine. A goroutine is its two captured variables,
  its local \<^verbatim>\<open>err\<close> and the point it has reached in its body:
  \<open>AtPut\<close> before \<^verbatim>\<open>s.put(hash, data)\<close>, \<open>AtRecord\<close> before the \<^verbatim>\<open>if\<close> that records the
  error or registers the hash in the inventory, \<open>AtRemove\<close> before the deferred deletion
  from \<^verbatim>\<open>inTransfer\<close>, \<open>AtDone\<close> before the deferred \<^verbatim>\<open>activeWrites.Done()\<close>.
\<close>

datatype pc = AtPut | AtRecord | AtRemove | AtDone

record goroutine =
  g_hash :: string
  g_data :: bytes
  g_err :: "error option"
  g_pc :: pc

text \<open>
  The fields of \<^verbatim>\<open>Store\<close>; a nil interface, a nil error and the nil map are \<open>None\<close>. A
  \<^verbatim>\<open>Limiter\<close> is its \<^verbatim>\<open>Deny\<close> predicate. \<open>activeWrites\<close> is the counter of the wait group.
  The last two fields are the surroundings of the store: the goroutines it has started
  that have not returned, and the disk.
\<close>

record Store =
  Limiter :: "(string \<Rightarrow> bytes \<Rightarrow> bool) option"
  Cache :: "cache option"
  Inventory :: "DefaultInventory option"
  Path :: path
  writeErr :: "error option"
  activeWrites :: int
  inTransfer :: "(string \<Rightarrow> bytes option) option"
  goroutines :: "goroutine list"
  disk :: filesystem

text \<open>The store a caller builds with \<^verbatim>\<open>Store{Path: ..., Limiter: ..., Cache: ..., Inventory: ...}\<close>.\<close>

definition NewStore ::
  "(string \<Rightarrow> bytes \<Rightarrow> bool) option \<Rightarrow> cache option \<Rightarrow> DefaultInventory option \<Rightarrow> path
     \<Rightarrow> filesystem \<Rightarrow> Store" where
  "NewStore lim c ivt p fs =
     \<lparr>Limiter = lim, Cache = c, Inventory = ivt, Path = p, writeErr = None,
      activeWrites = 0, inTransfer = None, goroutines = [], disk = fs\<rparr>"

definition hashDir :: "Store \<Rightarrow> string \<Rightarrow> path" where
  "hashDir s hash =
     (let subdir = (if length hash < 2 then hash else take 2 hash)
      in Join (Path s) subdir)"

definition put :: "Store \<Rightarrow> string \<Rightarrow> bytes \<Rightarrow> error option \<times> Store" where
  "put s hash data =
     (let dir = hashDir s hash in
      case MkdirAll (disk s) dir of
        Inl e \<Rightarrow> (Some (OsError e), s)
      | Inr fs1 \<Rightarrow>
          (let fn = Join dir hash in
           case Create fs1 fn of
             Inl e \<Rightarrow> (Some (OsError e), s\<lparr>disk := fs1\<rparr>)
           | Inr fs2 \<Rightarrow> (None, s\<lparr>disk := Write fs2 fn data\<rparr>)))"

text \<open>
  \<^verbatim>\<open>Put\<close>, up to the start of the goroutine; it returns the error (\<open>None\<close> is nil) and
  the store. \<^verbatim>\<open>strings.Contains(hash, string(filepath.Separator))\<close> holds when the
  separator is one of the characters of the hash.
\<close>

definition Put :: "Store \<Rightarrow> string \<Rightarrow> bytes \<Rightarrow> error option \<times> Store" where
  "Put s hash data =
     (if length hash = 0 \<or> Separator \<in> set hash then (Some ErrInvalidHash, s)
      else if writeErr s \<noteq> None then (writeErr s, s)
      else if (case Limiter s of None \<Rightarrow> False | Some lim \<Rightarrow> lim hash data)
        then (Some ErrLimiterDenied, s)
      else if (case Inventory s of None \<Rightarrow> False | Some i \<Rightarrow> Has i hash)
        then (Some ErrAlreadyExist, s)
      else
        (let m = (case inTransfer s of None \<Rightarrow> Map.empty | Some m \<Rightarrow> m);
             s1 = s\<lparr>inTransfer := Some (m(hash \<mapsto> data))\<rparr>;
             s2 = (case Cache s1 of
                     None \<Rightarrow> s1
                   | Some c \<Rightarrow> s1\<lparr>Cache := Some (cache_SeePut c hash data)\<rparr>);
             s3 = s2\<lparr>activeWrites := activeWrites s2 + 1,
                     goroutines := goroutines s2 @
                       [\<lparr>g_hash = hash, g_data = data, g_err = None, g_pc = AtPut\<rparr>]\<rparr>
         in (None, s3)))"

definition get :: "Store \<Rightarrow> string \<Rightarrow> bytes \<times> error option" where
  "get s hash =
     (let fn = Join (hashDir s hash) hash in
      case Open (disk s) fn of
        Inl e \<Rightarrow> (None, Some ErrDoesNotExist)
      | Inr fh \<Rightarrow> ReadAll fh)"

text \<open>
  \<^verbatim>\<open>Get\<close> returns the two results of the Go function and the store (a cache changes when
  it is read). With them the model returns the layers the call consulted, in the order
  it consulted them. The result \<open>None\<close> is a panic of \<^verbatim>\<open>SeeGet\<close>.
\<close>

datatype layer = ReadCache | TransferCache | Ledger | DiskRead | RetrievalHook

definition Get :: "Store \<Rightarrow> string \<Rightarrow> ((bytes \<times> error option) \<times> layer list \<times> Store) option" where
  "Get s hash =
     (if length hash = 0 \<or> Separator \<in> set hash then Some ((None, Some ErrInvalidHash), [], s)
      else
        (let (b, t1, s1) =
               (case Cache s of
                  None \<Rightarrow> (None, [], s)
                | Some c \<Rightarrow>
                    (case cache_Get c hash of
                       (b, c') \<Rightarrow> (b, [ReadCache], s\<lparr>Cache := Some c'\<rparr>)))
         in if b \<noteq> None then Some ((b, None), t1, s1)
            else
              (let (found, t2) =
                     (case inTransfer s1 of
                        None \<Rightarrow> (None, t1)
                      | Some m \<Rightarrow> (m hash, t1 @ [TransferCache]))
               in case found of
                    Some b \<Rightarrow> Some ((b, None), t2, s1)
                  | None \<Rightarrow>
                      (let (unknown, t3) =
                             (case Inventory s1 of
                                None \<Rightarrow> (False, t2)
                              | Some i \<Rightarrow> (\<not> Has i hash, t2 @ [Ledger]))
                       in if unknown then Some ((None, Some ErrDoesNotExist), t3, s1)
                          else
                            (case get s1 hash of
                               (data, err) \<Rightarrow>
                                 (case (err, Cache s1) of
                                    (None, Some (CacheMostRecentPtr c)) \<Rightarrow>
                                      (case CacheMostRecent_SeeGet c hash data of
                                         None \<Rightarrow> None
                                       | Some c' \<Rightarrow>
                                           Some ((data, err), t3 @ [DiskRead, RetrievalHook],
                                                 s1\<lparr>Cache := Some (CacheMostRecentPtr c')\<rparr>))
                                  | _ \<Rightarrow> Some ((data, err), t3 @ [DiskRead], s1)))))))"

subsection \<open>The goroutines and Sync\<close>

text \<open>
  One step of the goroutine at position \<open>i\<close>: the statement at its program point. The
  three file operations of \<^verbatim>\<open>s.put\<close> are taken as one step. A goroutine that has called
  \<^verbatim>\<open>Done\<close> returns and leaves the list.
\<close>

definition goroutine_step :: "nat \<Rightarrow> Store \<Rightarrow> Store option" where
  "goroutine_step i s =
     (if i < length (goroutines s) then
        (let g = goroutines s ! i in
         case g_pc g of
           AtPut \<Rightarrow>
             (case put s (g_hash g) (g_data g) of
                (err, s') \<Rightarrow>
                  Some (s'\<lparr>goroutines := (goroutines s)[i := g\<lparr>g_err := err, g_pc := AtRecord\<rparr>]\<rparr>))
         | AtRecord \<Rightarrow>
             (let s' = (case g_err g of
                          Some e \<Rightarrow> s\<lparr>writeErr := Some e\<rparr>
                        | None \<Rightarrow>
                            (case Inventory s of
                               None \<Rightarrow> s
                             | Some ivt \<Rightarrow> s\<lparr>Inventory := Some (See ivt (g_hash g))\<rparr>))
              in Some (s'\<lparr>goroutines := (goroutines s)[i := g\<lparr>g_pc := AtRemove\<rparr>]\<rparr>))
         | AtRemove \<Rightarrow>
             Some (s\<lparr>inTransfer := map_option (\<lambda>m. m(g_hash g := None)) (inTransfer s),
                     goroutines := (goroutines s)[i := g\<lparr>g_pc := AtDone\<rparr>]\<rparr>)
         | AtDone \<Rightarrow>
             Some (s\<lparr>activeWrites := activeWrites s - 1,
                     goroutines := take i (goroutines s) @ drop (Suc i) (goroutines s)\<rparr>))
      else None)"

text \<open>The scheduler runs any goroutine that has not returned.\<close>

inductive bg_step :: "Store \<Rightarrow> Store \<Rightarrow> bool" where
  "goroutine_step i s = Some s' \<Longrightarrow> bg_step s s'"

text \<open>
  \<^verbatim>\<open>Sync\<close> waits until the counter of the wait group is zero: it returns in a state the
  goroutines reach in which the counter is zero.
\<close>

definition Sync_returns :: "Store \<Rightarrow> Store \<Rightarrow> bool" where
  "Sync_returns s s' = (bg_step\<^sup>*\<^sup>* s s' \<and> activeWrites s' = 0)"

text \<open>
  One schedule, as a function: the goroutines run one after the other, each to its end.
  A goroutine returns after four steps.
\<close>

fun run :: "nat \<Rightarrow> Store \<Rightarrow> Store" where
  "run 0 s = s"
| "run (Suc n) s = (case goroutine_step 0 s of None \<Rightarrow> s | Some s' \<Rightarrow> run n s')"

definition Sync :: "Store \<Rightarrow> Store" where
  "Sync s = run (4 * length (goroutines s)) s"


section \<open>Notions used in the statements\<close>

text \<open>
  The shard of a hash, as \<open>hashDir\<close> computes it. A plain key is a hash that passes the
  check of \<^verbatim>\<open>Put\<close> and \<^verbatim>\<open>Get\<close>, is neither \<^verbatim>\<open>.\<close> nor starts with \<^verbatim>\<open>..\<close> and holds no NUL
  character: the file name and the shard are then ordinary names.
\<close>

definition subdir_of :: "string \<Rightarrow> string" where
  "subdir_of hash = (if length hash < 2 then hash else take 2 hash)"

definition valid_key :: "string \<Rightarrow> bool" where
  "valid_key hash = (\<not> (length hash = 0 \<or> Separator \<in> set hash))"

definition plain_key :: "string \<Rightarrow> bool" where
  "plain_key k =
     (valid_key k \<and> k \<noteq> ''.'' \<and> take 2 k \<noteq> ''..'' \<and> CHR 0x00 \<notin> set k)"

text \<open>
  A disk on which a store at \<open>root\<close> is fresh: the root of the file system is a directory
  and whatever else exists is a directory on the way to \<open>root\<close> (or \<open>root\<close> itself).
\<close>

definition fresh_disk :: "filesystem \<Rightarrow> path \<Rightarrow> bool" where
  "fresh_disk fs root = (fs [] = Some Dir \<and> (\<forall>q. fs q \<noteq> None \<longrightarrow> fs q = Some Dir \<and> prefix q root))"

text \<open>
  \<open>keeps fs fs'\<close>: every node of \<open>fs\<close> is still there in \<open>fs'\<close>, a directory as a
  directory and a file as a file with the same access (its bytes may differ).
\<close>

definition keeps :: "filesystem \<Rightarrow> filesystem \<Rightarrow> bool" where
  "keeps fs fs' =
     (\<forall>q. (fs q = Some Dir \<longrightarrow> fs' q = Some Dir) \<and>
          (\<forall>a bs. fs q = Some (File a bs) \<longrightarrow> (\<exists>bs'. fs' q = Some (File a bs'))))"

subsection \<open>Sequences of operations on the recency cache\<close>

datatype cmr_op = OpSeeGet string bytes | OpSeePut string bytes | OpGet string

fun apply_op :: "CacheMostRecent \<Rightarrow> cmr_op \<Rightarrow> CacheMostRecent option" where
  "apply_op c (OpSeeGet hash data) = CacheMostRecent_SeeGet c hash data"
| "apply_op c (OpSeePut hash data) = Some (CacheMostRecent_SeePut c hash data)"
| "apply_op c (OpGet hash) = Some (snd (CacheMostRecent_Get c hash))"

fun run_ops :: "CacheMostRecent option \<Rightarrow> cmr_op list \<Rightarrow> CacheMostRecent option" where
  "run_ops None ops = None"
| "run_ops (Some c) [] = Some c"
| "run_ops (Some c) (x # ops) = run_ops (apply_op c x) ops"

text \<open>The hashes of the entries of a cache, most recent first, and the hashes indexed.\<close>

fun hashes :: "CacheMostRecent option \<Rightarrow> string list" where
  "hashes None = []"
| "hashes (Some c) = map el_hash (entries c)"

fun indexed :: "CacheMostRecent option \<Rightarrow> string \<Rightarrow> bool" where
  "indexed None hash = False"
| "indexed (Some c) hash = (cm_m c hash \<noteq> None)"

text \<open>
  What the operations keep true of a cache made by \<open>NewCacheMostRecent\<close>: the elements of
  the list are distinct and allocated, every index entry points to an element of the list
  that holds its hash, and the list is not longer than the capacity.
\<close>

definition cmr_inv :: "CacheMostRecent \<Rightarrow> bool" where
  "cmr_inv c =
     (distinct (cm_l c) \<and> (\<forall>p \<in> set (cm_l c). p < cm_next c) \<and>
      (\<forall>k p. cm_m c k = Some p \<longrightarrow> p \<in> set (cm_l c) \<and> el_hash (cm_Value c p) = k) \<and>
      1 \<le> capacity c \<and> int (length (cm_l c)) \<le> capacity c)"

subsection \<open>The blocks of Get\<close>

text \<open>
  The cache lookup at the start of \<^verbatim>\<open>Get\<close>: what \<^verbatim>\<open>s.Cache.Get(hash)\<close> returned (nil when no
  cache is configured) and the store after it; the lookup in the transfer cache; the
  question to the inventory; and the part of the list of layers each block adds. A
  store is well formed when its recency cache, if it has one, is a cache the operations
  can produce.
\<close>

definition cache_lookup :: "Store \<Rightarrow> string \<Rightarrow> bytes \<times> Store" where
  "cache_lookup s hash =
     (case Cache s of
        None \<Rightarrow> (None, s)
      | Some c \<Rightarrow> (fst (cache_Get c hash), s\<lparr>Cache := Some (snd (cache_Get c hash))\<rparr>))"

definition transfer_lookup :: "Store \<Rightarrow> string \<Rightarrow> bytes option" where
  "transfer_lookup s hash = (case inTransfer s of None \<Rightarrow> None | Some m \<Rightarrow> m hash)"

definition ledger_unknown :: "Store \<Rightarrow> string \<Rightarrow> bool" where
  "ledger_unknown s hash = (case Inventory s of None \<Rightarrow> False | Some i \<Rightarrow> \<not> Has i hash)"

definition cache_trace :: "Store \<Rightarrow> layer list" where
  "cache_trace s = (if Cache s = None then [] else [ReadCache])"

definition transfer_trace :: "Store \<Rightarrow> layer list" where
  "transfer_trace s = (if inTransfer s = None then [] else [TransferCache])"

definition ledger_trace :: "Store \<Rightarrow> layer list" where
  "ledger_trace s = (if Inventory s = None then [] else [Ledger])"

fun cache_wf :: "cache option \<Rightarrow> bool" where
  "cache_wf None = True"
| "cache_wf (Some (CacheAllPtr c)) = True"
| "cache_wf (Some (CacheMostRecentPtr c)) = cmr_inv c"

subsection \<open>Runs of a store\<close>

text \<open>
  \<open>evolves s s'\<close>: the store \<open>s'\<close> is reached from \<open>s\<close> by calls of \<^verbatim>\<open>Put\<close> and \<^verbatim>\<open>Get\<close>
  that return and by steps of goroutines, in any order. \<^verbatim>\<open>Remove\<close> is not modelled.
\<close>

inductive evolves :: "Store \<Rightarrow> Store \<Rightarrow> bool" where
  start: "evolves s s"
| call_Put: "evolves s s1 \<Longrightarrow> evolves s (snd (Put s1 hash data))"
| call_Get: "evolves s s1 \<Longrightarrow> Get s1 hash = Some (r, tr, s2) \<Longrightarrow> evolves s s2"
| background: "evolves s s1 \<Longrightarrow> bg_step s1 s2 \<Longrightarrow> evolves s s2"

text \<open>The steps a goroutine has left, and the steps all goroutines of a store have left.\<close>

fun remaining :: "pc \<Rightarrow> nat" where
  "remaining AtPut = 4"
| "remaining AtRecord = 3"
| "remaining AtRemove = 2"
| "remaining AtDone = 1"

definition work :: "Store \<Rightarrow> nat" where
  "work s = sum_list (map (\<lambda>g. remaining (g_pc g)) (goroutines s))"

text \<open>
  A hash is readable when a disk read of it succeeds: its file exists and can be opened.
  This says nothing about the bytes in the file. A hash is registered when the
  inventory, if one is configured, knows it. A goroutine is settled when its write has
  been dealt with: a failure is recorded in \<open>writeErr\<close>, a success is readable and
  registered. \<open>goroutine_inv\<close> says what holds at each program point, \<open>store_inv\<close> that it
  holds for every goroutine and that the counter of the wait group is their number.
\<close>

definition readable :: "Store \<Rightarrow> string \<Rightarrow> bool" where
  "readable s hash = (snd (get s hash) = None)"

definition registered :: "Store \<Rightarrow> string \<Rightarrow> bool" where
  "registered s hash = (case Inventory s of None \<Rightarrow> True | Some i \<Rightarrow> Has i hash)"

definition settled :: "Store \<Rightarrow> goroutine \<Rightarrow> bool" where
  "settled s g =
     (case g_err g of
        Some e \<Rightarrow> writeErr s \<noteq> None
      | None \<Rightarrow> readable s (g_hash g) \<and> registered s (g_hash g))"

definition goroutine_inv :: "Store \<Rightarrow> goroutine \<Rightarrow> bool" where
  "goroutine_inv s g =
     (case g_pc g of
        AtPut \<Rightarrow> True
      | AtRecord \<Rightarrow> g_err g = None \<longrightarrow> readable s (g_hash g)
      | AtRemove \<Rightarrow> settled s g
      | AtDone \<Rightarrow> settled s g)"

definition store_inv :: "Store \<Rightarrow> bool" where
  "store_inv s =
     (activeWrites s = int (length (goroutines s)) \<and>
      (\<forall>g \<in> set (goroutines s). goroutine_inv s g))"

text \<open>
  The write of a goroutine is stored when a read of its hash from the disk returns
  exactly the bytes of its data (no bytes for nil data), with a nil error. A goroutine is unrivalled when the
  entry of its hash in the transfer cache is still the data of its own write and every
  other goroutine of the same hash has already run its deferred deletion: no other
  write of the hash is in flight. \<open>write_inv\<close> is the invariant of the writes: the hash
  of every goroutine passed the check of \<^verbatim>\<open>Put\<close>; a goroutine whose \<^verbatim>\<open>put\<close> succeeded was
  not given \<^verbatim>\<open>.\<close> or \<^verbatim>\<open>..\<close>; and between its \<^verbatim>\<open>put\<close> and its deferred deletion the write
  of an unrivalled goroutine that succeeded is stored.
\<close>

definition stored :: "Store \<Rightarrow> goroutine \<Rightarrow> bool" where
  "stored s g =
     (get s (g_hash g) = (Some (case g_data g of None \<Rightarrow> [] | Some bs \<Rightarrow> bs), None))"

definition unrivalled :: "Store \<Rightarrow> nat \<Rightarrow> bool" where
  "unrivalled s i =
     (transfer_lookup s (g_hash (goroutines s ! i)) = Some (g_data (goroutines s ! i)) \<and>
      (\<forall>j < length (goroutines s).
         j \<noteq> i \<and> g_hash (goroutines s ! j) = g_hash (goroutines s ! i)
           \<longrightarrow> g_pc (goroutines s ! j) = AtDone))"

definition write_ok :: "Store \<Rightarrow> nat \<Rightarrow> bool" where
  "write_ok s i =
     (valid_key (g_hash (goroutines s ! i)) \<and>
      (g_pc (goroutines s ! i) \<noteq> AtPut \<and> g_err (goroutines s ! i) = None \<longrightarrow>
         g_hash (goroutines s ! i) \<noteq> ''.'' \<and> g_hash (goroutines s ! i) \<noteq> ''..'') \<and>
      ((g_pc (goroutines s ! i) = AtRecord \<or> g_pc (goroutines s ! i) = AtRemove) \<and>
       g_err (goroutines s ! i) = None \<and> unrivalled s i \<longrightarrow>
         stored s (goroutines s ! i)))"

definition write_inv :: "Store \<Rightarrow> bool" where
  "write_inv s = (\<forall>i < length (goroutines s). write_ok s i)"


text \<open>
  \<open>evolves_nil k s s'\<close>: a run from \<open>s\<close> to \<open>s'\<close> as above in which every \<^verbatim>\<open>Put\<close> of the
  hash \<open>k\<close> carries nil data; the other hashes are written with any data.
\<close>

inductive evolves_nil :: "string \<Rightarrow> Store \<Rightarrow> Store \<Rightarrow> bool" where
  nil_start: "evolves_nil k s s"
| nil_Put: "evolves_nil k s s1 \<Longrightarrow> (hash = k \<longrightarrow> data = None) \<Longrightarrow>
            evolves_nil k s (snd (Put s1 hash data))"
| nil_Get: "evolves_nil k s s1 \<Longrightarrow> Get s1 hash = Some (r, tr, s2) \<Longrightarrow> evolves_nil k s s2"
| nil_background: "evolves_nil k s s1 \<Longrightarrow> bg_step s1 s2 \<Longrightarrow> evolves_nil k s s2"

text \<open>
  \<open>grows s s'\<close>: from \<open>s\<close> to \<open>s'\<close> the path is the same, the disk keeps its nodes, a
  recorded error stays recorded, and the inventory is still configured or still absent
  and knows what it knew.
\<close>

definition knows :: "Store \<Rightarrow> string \<Rightarrow> bool" where
  "knows s hash = (case Inventory s of None \<Rightarrow> False | Some i \<Rightarrow> Has i hash)"

definition grows :: "Store \<Rightarrow> Store \<Rightarrow> bool" where
  "grows s s' =
     (Path s' = Path s \<and> keeps (disk s) (disk s') \<and>
      (writeErr s \<noteq> None \<longrightarrow> writeErr s' \<noteq> None) \<and>
      (Inventory s = None \<longleftrightarrow> Inventory s' = None) \<and>
      (\<forall>hash. knows s hash \<longrightarrow> knows s' hash))"

text \<open>
  A limiter admits a write when none is configured or \<^verbatim>\<open>Deny\<close> is false. A fresh cache is
  no cache, a new \<^verbatim>\<open>CacheAll\<close> or a new \<^verbatim>\<open>CacheMostRecent\<close>.
\<close>

definition admits :: "(string \<Rightarrow> bytes \<Rightarrow> bool) option \<Rightarrow> string \<Rightarrow> bytes \<Rightarrow> bool" where
  "admits lim hash data = (case lim of None \<Rightarrow> True | Some deny \<Rightarrow> \<not> deny hash data)"

fun fresh_cache :: "cache option \<Rightarrow> bool" where
  "fresh_cache None = True"
| "fresh_cache (Some (CacheAllPtr c)) = (c = NewCacheAll)"
| "fresh_cache (Some (CacheMostRecentPtr c)) = (\<exists>n. NewCacheMostRecent n = Some c)"

subsection \<open>Disks used in the examples\<close>

text \<open>
  \<open>empty_disk\<close> holds the root directory only. \<open>locked_disk\<close> holds a store directory
  \<^verbatim>\<open>/foo\<close> in which the file of the hash \<^verbatim>\<open>abc\<close> exists and may not be opened by this
  process.
\<close>

definition empty_disk :: filesystem where
  "empty_disk = [[] \<mapsto> Dir]"

definition locked_disk :: filesystem where
  "locked_disk =
     [[] \<mapsto> Dir, [''foo''] \<mapsto> Dir, [''foo'', ''ab''] \<mapsto> Dir,
      [''foo'', ''ab'', ''abc''] \<mapsto> File False [1, 2, 3]]"

text \<open>
  \<open>file_root_disk\<close>: the path \<^verbatim>\<open>/foo\<close> of the store is a regular file, so no directory can
  be made below it. \<open>deny_x\<close> is a limiter that denies the hash \<^verbatim>\<open>x\<close> and nothing else.
\<close>

definition file_root_disk :: filesystem where
  "file_root_disk = [[] \<mapsto> Dir, [''foo''] \<mapsto> File True []]"

definition deny_x :: "string \<Rightarrow> bytes \<Rightarrow> bool" where
  "deny_x hash data = (hash = ''x'')"


text \<open>What a call of \<^verbatim>\<open>Get\<close> returned to its caller, and with it the layers consulted.\<close>

definition returned :: "((bytes \<times> error option) \<times> layer list \<times> Store) option
    \<Rightarrow> (bytes \<times> error option) option" where
  "returned x = map_option fst x"

definition returned_via :: "((bytes \<times> error option) \<times> layer list \<times> Store) option
    \<Rightarrow> ((bytes \<times> error option) \<times> layer list) option" where
  "returned_via x = map_option (\<lambda>y. (fst y, fst (snd y))) x"

definition store_after :: "((bytes \<times> error option) \<times> layer list \<times> Store) option \<Rightarrow> Store \<Rightarrow> Store" where
  "store_after x s = (case x of None \<Rightarrow> s | Some y \<Rightarrow> snd (snd y))"

section \<open>Facts about paths and the file system\<close>

lemma split_sep_plain: "Separator \<notin> set e \<Longrightarrow> split_sep acc e = [rev acc @ e]"
  by (induction e arbitrary: acc) auto

lemma Join_plain: "Separator \<notin> set e \<Longrightarrow> Join dir e = clean_step dir e"
  by (simp add: Join_def split_sep_plain)

lemma subdir_plain:
  assumes "plain_key k"
  shows "subdir_of k \<noteq> [] \<and> subdir_of k \<noteq> ''.'' \<and> subdir_of k \<noteq> ''..'' \<and>
         Separator \<notin> set (subdir_of k)"
proof -
  have "set (take 2 k) \<subseteq> set k" by (rule set_take_subset)
  moreover have "length k < 2 \<Longrightarrow> k \<noteq> ''..''" by auto
  moreover have "\<not> length k < 2 \<Longrightarrow> take 2 k \<noteq> [] \<and> take 2 k \<noteq> ''.''"
    by (cases k) (auto simp: take_Suc_conv_app_nth numeral_2_eq_2 split: list.splits)
  ultimately show ?thesis using assms
    by (auto simp: plain_key_def valid_key_def subdir_of_def)
qed

lemma hashDir_plain: "plain_key k \<Longrightarrow> hashDir s k = Path s @ [subdir_of k]"
  using subdir_plain[of k]
  by (simp add: hashDir_def Join_plain clean_step_def subdir_of_def[symmetric] Let_def)

lemma file_path_plain: "plain_key k \<Longrightarrow> Join (hashDir s k) k = Path s @ [subdir_of k, k]"
proof -
  assume p: "plain_key k"
  then have "k \<noteq> ''..''" by (auto simp: plain_key_def)
  with p show ?thesis
    by (simp add: hashDir_plain Join_plain clean_step_def plain_key_def valid_key_def)
qed

lemma walk_result: "walk fs cur cs = Inr n \<Longrightarrow> fs (cur @ cs) = Some n"
proof (induction cs arbitrary: cur)
  case Nil
  then show ?case by (auto split: option.splits)
next
  case (Cons c cs)
  from Cons.prems have "walk fs (cur @ [c]) cs = Inr n"
    by (auto split: option.splits node.splits)
  from Cons.IH[OF this] show ?case by simp
qed

lemma walk_dirs:
  "(\<forall>q. prefix cur q \<and> strict_prefix q (cur @ cs) \<longrightarrow> fs q = Some Dir) \<Longrightarrow>
   walk fs cur cs = (case fs (cur @ cs) of None \<Rightarrow> Inl ENOENT | Some n \<Rightarrow> Inr n)"
proof (induction cs arbitrary: cur)
  case Nil
  then show ?case by simp
next
  case (Cons c cs)
  have "fs cur = Some Dir"
    using Cons.prems by (simp add: strict_prefix_def)
  moreover have "walk fs (cur @ [c]) cs =
      (case fs ((cur @ [c]) @ cs) of None \<Rightarrow> Inl ENOENT | Some n \<Rightarrow> Inr n)"
  proof (rule Cons.IH[of "cur @ [c]"], intro allI impI)
    fix q assume q: "prefix (cur @ [c]) q \<and> strict_prefix q ((cur @ [c]) @ cs)"
    then have "prefix cur q" using append_prefixD by blast
    with q Cons.prems show "fs q = Some Dir" by simp
  qed
  ultimately show ?case by simp
qed

lemma walk_reaches_dirs:
  "walk fs cur cs = Inr n \<Longrightarrow> prefix cur q \<Longrightarrow> strict_prefix q (cur @ cs) \<Longrightarrow> fs q = Some Dir"
proof (induction cs arbitrary: cur)
  case Nil
  then show ?case by (auto simp: strict_prefix_def)
next
  case (Cons c cs)
  from Cons.prems(1) have d: "fs cur = Some Dir" and w: "walk fs (cur @ [c]) cs = Inr n"
    by (auto split: option.splits node.splits)
  show ?case
  proof (cases "q = cur")
    case True
    with d show ?thesis by simp
  next
    case False
    with Cons.prems(2,3) have "prefix (cur @ [c]) q"
      by (auto simp: prefix_def strict_prefix_def append_eq_append_conv2 Cons_eq_append_conv)
    with Cons.IH[OF w] Cons.prems(3) show ?thesis by simp
  qed
qed

lemma mkdirs_ok:
  "(\<forall>q a bs. prefix cur q \<and> prefix q (cur @ cs) \<longrightarrow> fs q \<noteq> Some (File a bs)) \<Longrightarrow>
   mkdirs fs cur cs = Inr (\<lambda>q. if prefix cur q \<and> prefix q (cur @ cs) then Some Dir else fs q)"
proof (induction cs arbitrary: cur fs)
  case Nil
  have "fs(cur \<mapsto> Dir) = (\<lambda>q. if prefix cur q \<and> prefix q cur then Some Dir else fs q)"
    by (rule ext) (auto simp: prefix_order.antisym)
  moreover have "\<forall>a bs. fs cur \<noteq> Some (File a bs)" using Nil by simp
  ultimately show ?case by (auto split: option.splits node.splits)
next
  case (Cons c cs)
  let ?fs = "fs(cur \<mapsto> Dir)"
  have nf: "\<forall>a bs. fs cur \<noteq> Some (File a bs)" using Cons.prems by simp
  have "mkdirs ?fs (cur @ [c]) cs =
      Inr (\<lambda>q. if prefix (cur @ [c]) q \<and> prefix q ((cur @ [c]) @ cs) then Some Dir else ?fs q)"
  proof (rule Cons.IH[of "cur @ [c]" "?fs"], intro allI impI)
    fix q a bs assume q: "prefix (cur @ [c]) q \<and> prefix q ((cur @ [c]) @ cs)"
    then have "prefix cur q" using append_prefixD by blast
    moreover from q have "q \<noteq> cur" by (auto simp: prefix_def)
    ultimately show "?fs q \<noteq> Some (File a bs)" using q Cons.prems by simp
  qed
  moreover have "(\<lambda>q. if prefix (cur @ [c]) q \<and> prefix q ((cur @ [c]) @ cs) then Some Dir else ?fs q)
      = (\<lambda>q. if prefix cur q \<and> prefix q (cur @ c # cs) then Some Dir else fs q)"
  proof (rule ext)
    fix q
    have "prefix cur q \<and> prefix q (cur @ c # cs) \<longleftrightarrow>
          q = cur \<or> (prefix (cur @ [c]) q \<and> prefix q ((cur @ [c]) @ cs))"
      by (auto simp: prefix_def append_eq_append_conv2 Cons_eq_append_conv)
    then show "(if prefix (cur @ [c]) q \<and> prefix q ((cur @ [c]) @ cs) then Some Dir else ?fs q)
      = (if prefix cur q \<and> prefix q (cur @ c # cs) then Some Dir else fs q)"
      by auto
  qed
  ultimately show ?case using nf by (auto split: option.splits node.splits)
qed

lemma keeps_refl: "keeps fs fs"
  by (simp add: keeps_def)

lemma keeps_trans: "keeps fs fs' \<Longrightarrow> keeps fs' fs'' \<Longrightarrow> keeps fs fs''"
  unfolding keeps_def by blast

lemma keeps_mkdir: "\<forall>a bs. fs cur \<noteq> Some (File a bs) \<Longrightarrow> keeps fs (fs(cur \<mapsto> Dir))"
  by (simp add: keeps_def)

lemma mkdirs_keeps: "mkdirs fs cur cs = Inr fs' \<Longrightarrow> keeps fs fs'"
proof (induction cs arbitrary: fs cur)
  case Nil
  then have "\<forall>a bs. fs cur \<noteq> Some (File a bs)" and "fs' = fs(cur \<mapsto> Dir)"
    by (auto split: option.splits node.splits)
  then show ?case using keeps_mkdir[of fs cur] by blast
next
  case (Cons c cs)
  then have nf: "\<forall>a bs. fs cur \<noteq> Some (File a bs)"
    and m: "mkdirs (fs(cur \<mapsto> Dir)) (cur @ [c]) cs = Inr fs'"
    by (auto split: option.splits node.splits)
  from keeps_mkdir[of fs cur, OF nf] Cons.IH[OF m] show ?case by (rule keeps_trans)
qed

lemma stat_missing:
  assumes "stat fs p = Inl ENOENT" and "stat fs (butlast p) = Inr Dir"
  shows "fs p = None \<and> p \<noteq> []"
proof -
  from assms have ne: "p \<noteq> []" by (auto simp: stat_def)
  have "\<forall>q. prefix [] q \<and> strict_prefix q ([] @ p) \<longrightarrow> fs q = Some Dir"
  proof (intro allI impI)
    fix q assume "prefix [] q \<and> strict_prefix q ([] @ p)"
    then have "prefix q (butlast p)"
      using ne by (metis append_Nil append_butlast_last_id prefix_snoc strict_prefix_def)
    then show "fs q = Some Dir"
      using assms(2) walk_reaches_dirs[of fs "[]" "butlast p" Dir q] walk_result[of fs "[]" "butlast p" Dir]
      by (auto simp: stat_def strict_prefix_def)
  qed
  from walk_dirs[where fs=fs and cur="[]" and cs=p, OF this] assms(1) have "fs p = None"
    by (auto simp: stat_def split: option.splits)
  with ne show ?thesis by simp
qed

lemma stat_dirs_above:
  assumes "stat fs p = Inr n \<or> (stat fs p = Inl ENOENT \<and> stat fs (butlast p) = Inr Dir)"
    and "strict_prefix q p"
  shows "fs q = Some Dir"
proof -
  from assms(1) show ?thesis
  proof
    assume "stat fs p = Inr n"
    with assms(2) walk_reaches_dirs[of fs "[]" p n q] show ?thesis by (simp add: stat_def)
  next
    assume a: "stat fs p = Inl ENOENT \<and> stat fs (butlast p) = Inr Dir"
    then have ne: "p \<noteq> []" using stat_missing by blast
    with assms(2) have "prefix q (butlast p)"
      by (metis append_butlast_last_id prefix_snoc strict_prefix_def)
    with a walk_reaches_dirs[of fs "[]" "butlast p" Dir q] walk_result[of fs "[]" "butlast p" Dir]
    show ?thesis by (auto simp: stat_def strict_prefix_def)
  qed
qed

lemma Create_cases:
  assumes "Create fs p = Inr fs'"
  shows "fs' = fs(p \<mapsto> File True []) \<and>
         ((\<exists>bs. stat fs p = Inr (File True bs)) \<or>
          (stat fs p = Inl ENOENT \<and> stat fs (butlast p) = Inr Dir))"
  using assms
  by (auto simp: Create_def split: sum.splits node.splits errno.splits if_splits)

lemma Create_keeps:
  assumes "Create fs p = Inr fs'"
  shows "keeps fs fs'"
proof -
  from Create_cases[OF assms] have fs': "fs' = fs(p \<mapsto> File True [])"
    and c: "(\<exists>bs. stat fs p = Inr (File True bs)) \<or>
          (stat fs p = Inl ENOENT \<and> stat fs (butlast p) = Inr Dir)" by auto
  from c have "fs p = None \<or> (\<exists>bs. fs p = Some (File True bs))"
    using stat_missing[of fs p] walk_result[of fs "[]" p] by (auto simp: stat_def)
  with fs' show ?thesis by (auto simp: keeps_def)
qed

lemma Create_resolves:
  assumes "Create fs p = Inr fs'"
  shows "stat (fs'(p \<mapsto> File True bs)) p = Inr (File True bs)"
proof -
  let ?fs = "fs'(p \<mapsto> File True bs)"
  from Create_cases[OF assms] have fs': "fs' = fs(p \<mapsto> File True [])"
    and c: "(\<exists>bs. stat fs p = Inr (File True bs)) \<or>
          (stat fs p = Inl ENOENT \<and> stat fs (butlast p) = Inr Dir)" by auto
  have "\<forall>q. prefix [] q \<and> strict_prefix q ([] @ p) \<longrightarrow> ?fs q = Some Dir"
  proof (intro allI impI)
    fix q assume "prefix [] q \<and> strict_prefix q ([] @ p)"
    then have sp: "strict_prefix q p" by simp
    then have "fs q = Some Dir" using c stat_dirs_above[of fs p _ q] by blast
    with sp fs' show "?fs q = Some Dir" by (auto simp: strict_prefix_def)
  qed
  from walk_dirs[where fs="?fs" and cur="[]" and cs=p, OF this] show ?thesis
    unfolding stat_def by simp
qed

lemma put_frame: "snd (put s hash data) = s\<lparr>disk := disk (snd (put s hash data))\<rparr>"
  by (simp add: put_def Let_def split: sum.splits)

lemma put_keeps: "keeps (disk s) (disk (snd (put s hash data)))"
proof (cases "MkdirAll (disk s) (hashDir s hash)")
  case (Inl e)
  then show ?thesis by (simp add: put_def keeps_refl)
next
  case (Inr fs1)
  then have k1: "keeps (disk s) fs1" by (simp add: MkdirAll_def mkdirs_keeps)
  show ?thesis
  proof (cases "Create fs1 (Join (hashDir s hash) hash)")
    case (Inl e)
    with Inr k1 show ?thesis by (simp add: put_def)
  next
    case c: (Inr fs2)
    from Create_cases[OF c] have "fs2 (Join (hashDir s hash) hash) = Some (File True [])" by simp
    then have "keeps fs2 (Write fs2 (Join (hashDir s hash) hash) data)"
      by (auto simp: keeps_def Write_def)
    with k1 Create_keeps[OF c] have "keeps (disk s) (Write fs2 (Join (hashDir s hash) hash) data)"
      using keeps_trans by blast
    with Inr c show ?thesis by (simp add: put_def)
  qed
qed

lemma hashDir_disk [simp]: "hashDir (s\<lparr>disk := fs\<rparr>) hash = hashDir s hash"
  by (simp add: hashDir_def)

lemma put_then_get:
  assumes "fst (put s hash data) = None"
  shows "get (snd (put s hash data)) hash = (Some (content data), None)"
proof -
  let ?fn = "Join (hashDir s hash) hash"
  from assms obtain fs1 fs2 where m: "MkdirAll (disk s) (hashDir s hash) = Inr fs1"
    and c: "Create fs1 ?fn = Inr fs2"
    by (auto simp: put_def Let_def split: sum.splits)
  then have s': "snd (put s hash data) = s\<lparr>disk := Write fs2 ?fn data\<rparr>"
    by (simp add: put_def)
  have "stat (Write fs2 ?fn data) ?fn = Inr (File True (content data))"
    using Create_resolves[OF c] by (simp add: Write_def)
  then show ?thesis
    by (simp add: s' get_def Open_def ReadAll_def)
qed

lemma walk_keeps:
  "keeps fs fs' \<Longrightarrow> walk fs cur cs = Inr (File a bs) \<Longrightarrow> \<exists>bs'. walk fs' cur cs = Inr (File a bs')"
proof (induction cs arbitrary: cur)
  case Nil
  then have "fs cur = Some (File a bs)" by (auto split: option.splits)
  with Nil.prems(1) obtain bs' where "fs' cur = Some (File a bs')"
    unfolding keeps_def by blast
  then show ?case by simp
next
  case (Cons c cs)
  from Cons.prems(2) have d: "fs cur = Some Dir" and w: "walk fs (cur @ [c]) cs = Inr (File a bs)"
    by (auto split: option.splits node.splits)
  from d Cons.prems(1) have "fs' cur = Some Dir" by (simp add: keeps_def)
  with Cons.IH[OF Cons.prems(1) w] show ?case by simp
qed

lemma get_ok_iff:
  "snd (get s hash) = None \<longleftrightarrow> (\<exists>bs. stat (disk s) (Join (hashDir s hash) hash) = Inr (File True bs))"
  by (auto simp: get_def Open_def ReadAll_def split: sum.splits node.splits if_splits)

lemma get_ok_keeps:
  assumes "snd (get s hash) = None" and "keeps (disk s) fs'"
  shows "snd (get (s\<lparr>disk := fs'\<rparr>) hash) = None"
  using assms walk_keeps[of "disk s" fs' "[]" "Join (hashDir s hash) hash" True]
  by (auto simp: get_ok_iff stat_def)

lemma get_ok_put:
  assumes "snd (get s hash) = None"
  shows "snd (get (snd (put s hash' data')) hash) = None"
  using get_ok_keeps[OF assms put_keeps[of s hash' data']] put_frame[of s hash' data']
  by simp

lemma put_ok_fresh:
  assumes "plain_key k" and "fresh_disk (disk s) (Path s)"
  shows "fst (put s k data) = None"
proof -
  let ?dir = "Path s @ [subdir_of k]"
  let ?fn = "Path s @ [subdir_of k, k]"
  let ?fs1 = "\<lambda>q. if prefix [] q \<and> prefix q ([] @ ?dir) then Some Dir else disk s q"
  have "\<forall>q a bs. prefix [] q \<and> prefix q ([] @ ?dir) \<longrightarrow> disk s q \<noteq> Some (File a bs)"
    using assms(2) by (auto simp: fresh_disk_def)
  from mkdirs_ok[where fs="disk s" and cur="[]" and cs="?dir", OF this]
  have m: "MkdirAll (disk s) ?dir = Inr ?fs1"
    by (simp add: MkdirAll_def)
  have nofn: "?fs1 ?fn = None"
    using assms(2) by (auto simp: fresh_disk_def prefix_def)
  have "\<forall>q. prefix [] q \<and> strict_prefix q ([] @ ?fn) \<longrightarrow> ?fs1 q = Some Dir"
    by (auto simp: strict_prefix_def prefix_def append_eq_append_conv2 Cons_eq_append_conv)
  from walk_dirs[where fs="?fs1" and cur="[]" and cs="?fn", OF this] nofn
  have st: "stat ?fs1 ?fn = Inl ENOENT"
    by (simp add: stat_def)
  have "\<forall>q. prefix [] q \<and> strict_prefix q ([] @ ?dir) \<longrightarrow> ?fs1 q = Some Dir"
    by (auto simp: strict_prefix_def)
  from walk_dirs[where fs="?fs1" and cur="[]" and cs="?dir", OF this]
  have "stat ?fs1 ?dir = Inr Dir"
    by (simp add: stat_def)
  moreover have "butlast ?fn = ?dir" by (simp add: butlast_append)
  ultimately have "Create ?fs1 ?fn = Inr (?fs1(?fn \<mapsto> File True []))"
    using st by (simp add: Create_def)
  with m show ?thesis
    using hashDir_plain[OF assms(1), of s] file_path_plain[OF assms(1), of s]
    by (simp add: put_def Let_def)
qed

subsection \<open>What a write leaves alone\<close>

text \<open>
  \<^verbatim>\<open>os.MkdirAll\<close> keeps every node that exists and makes a directory of every prefix of
  its path. A path resolves as before when the nodes on it are kept, and when a node that
  is not on it is changed.
\<close>

lemma mkdirs_same: "mkdirs fs cur cs = Inr fs' \<Longrightarrow> fs q = Some n \<Longrightarrow> fs' q = Some n"
proof (induction cs arbitrary: fs cur)
  case Nil
  then show ?case by (auto split: option.splits node.splits)
next
  case (Cons c cs)
  from Cons.prems(1) have nf: "\<forall>a bs. fs cur \<noteq> Some (File a bs)"
    by (auto split: option.splits node.splits)
  with Cons.prems(1) have m: "mkdirs (fs(cur \<mapsto> Dir)) (cur @ [c]) cs = Inr fs'"
    by (auto split: option.splits node.splits)
  have "(fs(cur \<mapsto> Dir)) q = Some n"
    using Cons.prems(2) nf by (cases n) auto
  from Cons.IH[OF m this] show ?case .
qed

lemma mkdirs_dirs:
  "mkdirs fs cur cs = Inr fs' \<Longrightarrow> prefix cur q \<Longrightarrow> prefix q (cur @ cs) \<Longrightarrow> fs' q = Some Dir"
proof (induction cs arbitrary: fs cur)
  case Nil
  then have "q = cur" by (simp add: prefix_order.antisym)
  with Nil.prems(1) show ?case by (auto split: option.splits node.splits)
next
  case (Cons c cs)
  from Cons.prems(1) have m: "mkdirs (fs(cur \<mapsto> Dir)) (cur @ [c]) cs = Inr fs'"
    by (auto split: option.splits node.splits)
  show ?case
  proof (cases "q = cur")
    case True
    have "(fs(cur \<mapsto> Dir)) q = Some Dir" using True by simp
    from mkdirs_same[OF m this] show ?thesis .
  next
    case False
    with Cons.prems(2) obtain r where r: "q = cur @ r" "r \<noteq> []" by (auto simp: prefix_def)
    with Cons.prems(3) have "prefix r (c # cs)" by simp
    with r obtain r' where "r = c # r'" by (cases r) (auto)
    with r have "prefix (cur @ [c]) q" by simp
    moreover have "prefix q ((cur @ [c]) @ cs)" using Cons.prems(3) by simp
    ultimately show ?thesis using Cons.IH[OF m] by blast
  qed
qed

lemma walk_same:
  "(\<forall>q n. fs q = Some n \<longrightarrow> fs' q = Some n) \<Longrightarrow> walk fs cur cs = Inr n \<Longrightarrow> walk fs' cur cs = Inr n"
proof (induction cs arbitrary: cur)
  case Nil
  then show ?case by (auto split: option.splits)
next
  case (Cons c cs)
  from Cons.prems(2) have d: "fs cur = Some Dir" and w: "walk fs (cur @ [c]) cs = Inr n"
    by (auto split: option.splits node.splits)
  from d Cons.prems(1) have "fs' cur = Some Dir" by blast
  with Cons.IH[OF Cons.prems(1) w] show ?case by simp
qed

lemma walk_other: "\<not> prefix p (cur @ cs) \<Longrightarrow> walk (fs(p := x)) cur cs = walk fs cur cs"
proof (induction cs arbitrary: cur)
  case Nil
  then show ?case by auto
next
  case (Cons c cs)
  from Cons.prems have ne: "p \<noteq> cur" by auto
  from Cons.prems have "\<not> prefix p ((cur @ [c]) @ cs)" by simp
  from Cons.IH[OF this] ne show ?case
    by (simp del: fun_upd_apply add: fun_upd_other split: option.splits node.splits)
qed

lemma Create_elsewhere:
  assumes "Create fs p' = Inr fs'" and "stat fs p = Inr n" and "p' \<noteq> p"
  shows "stat (fs'(p' \<mapsto> x)) p = Inr n"
proof -
  from Create_cases[OF assms(1)] have c: "fs' = fs(p' \<mapsto> File True [])"
    and st: "(\<exists>bs. stat fs p' = Inr (File True bs)) \<or>
          (stat fs p' = Inl ENOENT \<and> stat fs (butlast p') = Inr Dir)" by simp_all
  have "\<not> prefix p' p"
  proof
    assume "prefix p' p"
    with assms(3) have sp: "strict_prefix p' p" by (simp add: strict_prefix_def)
    from assms(2) have "walk fs [] p = Inr n" by (simp add: stat_def)
    from walk_reaches_dirs[OF this, of p'] sp have d: "fs p' = Some Dir" by simp
    from st show False
    proof
      assume "\<exists>bs. stat fs p' = Inr (File True bs)"
      then obtain bs where "walk fs [] p' = Inr (File True bs)" by (auto simp: stat_def)
      from walk_result[OF this] d show False by simp
    next
      assume "stat fs p' = Inl ENOENT \<and> stat fs (butlast p') = Inr Dir"
      with stat_missing[of fs p'] d show False by simp
    qed
  qed
  then have "walk (fs(p' := Some x)) [] p = walk fs [] p"
    using walk_other[of p' "[]" p fs "Some x"] by simp
  with assms(2) c show ?thesis by (simp add: stat_def)
qed

text \<open>
  The hashes \<^verbatim>\<open>.\<close> and \<^verbatim>\<open>..\<close> name a directory that \<^verbatim>\<open>put\<close> has just made, so their write
  fails. The file of any other hash ends in the hash, so the write of one hash leaves
  the file of another as it is.
\<close>

lemma hashDir_dot: "hashDir s ''.'' = Path s"
  by (simp add: hashDir_def Join_def clean_step_def Separator_def)

lemma hashDir_dotdot: "hashDir s ''..'' = butlast (Path s)"
  by (simp add: hashDir_def Join_def clean_step_def Separator_def)

lemma Create_dir:
  assumes "MkdirAll fs dir = Inr fs1" and "prefix p dir"
  shows "\<exists>e. Create fs1 p = Inl e"
proof -
  have d: "fs1 q = Some Dir" if "prefix q dir" for q
    using mkdirs_dirs[of fs "[]" dir fs1 q] assms(1) that by (simp add: MkdirAll_def)
  have "\<forall>q. prefix [] q \<and> strict_prefix q ([] @ p) \<longrightarrow> fs1 q = Some Dir"
    using d assms(2) by (auto simp: strict_prefix_def intro: prefix_order.trans)
  from walk_dirs[where fs=fs1 and cur="[]" and cs=p, OF this] d[OF assms(2)]
  have "stat fs1 p = Inr Dir" by (simp add: stat_def)
  then show ?thesis by (simp add: Create_def)
qed

lemma put_ok_named:
  assumes "fst (put s k d) = None"
  shows "k \<noteq> ''.'' \<and> k \<noteq> ''..''"
proof -
  from assms obtain fs1 fs2 where m: "MkdirAll (disk s) (hashDir s k) = Inr fs1"
    and c: "Create fs1 (Join (hashDir s k) k) = Inr fs2"
    by (auto simp: put_def Let_def split: sum.splits)
  have "k \<noteq> ''.''"
  proof
    assume k: "k = ''.''"
    then have "Join (hashDir s k) k = hashDir s k"
      by (simp add: Join_def clean_step_def Separator_def)
    with Create_dir[OF m, of "hashDir s k"] c show False by simp
  qed
  moreover have "k \<noteq> ''..''"
  proof
    assume k: "k = ''..''"
    then have "Join (hashDir s k) k = butlast (hashDir s k)"
      by (simp add: Join_def clean_step_def Separator_def)
    moreover have "prefix (butlast (hashDir s k)) (hashDir s k)" by (simp add: prefixeq_butlast)
    ultimately show False using Create_dir[OF m, of "butlast (hashDir s k)"] c by simp
  qed
  ultimately show ?thesis by simp
qed

lemma file_path_last:
  assumes "valid_key k" and "k \<noteq> ''.''" and "k \<noteq> ''..''"
  shows "Join (hashDir s k) k = hashDir s k @ [k]"
  using assms by (simp add: Join_plain clean_step_def valid_key_def)

lemma get_file_iff:
  "get s hash = (Some bs, None) \<longleftrightarrow> stat (disk s) (Join (hashDir s hash) hash) = Inr (File True bs)"
  by (auto simp: get_def Open_def ReadAll_def split: sum.splits node.splits if_splits)

lemma get_put_other:
  assumes "get s k = (Some bs, None)" and "valid_key k" and "k \<noteq> ''.''" and "k \<noteq> ''..''"
    and "valid_key k'" and "k' \<noteq> k"
  shows "get (snd (put s k' d)) k = (Some bs, None)"
proof -
  let ?p = "Join (hashDir s k) k"
  let ?p' = "Join (hashDir s k') k'"
  from assms(1) have st: "stat (disk s) ?p = Inr (File True bs)" by (simp add: get_file_iff)
  have goal: "get (s\<lparr>disk := fs'\<rparr>) k = (Some bs, None)" if "stat fs' ?p = Inr (File True bs)" for fs'
    using that by (simp add: get_file_iff)
  show ?thesis
  proof (cases "MkdirAll (disk s) (hashDir s k')")
    case (Inl e)
    then have "snd (put s k' d) = s" by (simp add: put_def)
    with assms(1) show ?thesis by simp
  next
    case (Inr fs1)
    have "\<forall>q n. disk s q = Some n \<longrightarrow> fs1 q = Some n"
      using mkdirs_same[of "disk s" "[]" "hashDir s k'" fs1] Inr by (simp add: MkdirAll_def)
    from walk_same[OF this, of "[]" ?p "File True bs"] st
    have st1: "stat fs1 ?p = Inr (File True bs)" by (simp add: stat_def)
    show ?thesis
    proof (cases "Create fs1 ?p'")
      case (Inl e)
      with Inr have "snd (put s k' d) = s\<lparr>disk := fs1\<rparr>" by (simp add: put_def)
      with goal[OF st1] show ?thesis by simp
    next
      case c: (Inr fs2)
      with Inr have ok: "fst (put s k' d) = None" by (simp add: put_def)
      from put_ok_named[OF ok] assms(5) have "?p' = hashDir s k' @ [k']"
        by (simp add: file_path_last)
      moreover have "?p = hashDir s k @ [k]" using assms(2,3,4) by (simp add: file_path_last)
      ultimately have ne: "?p' \<noteq> ?p" using assms(6) by simp
      from Create_elsewhere[OF c st1 ne, of "File True (content d)"]
      have "stat (Write fs2 ?p' d) ?p = Inr (File True bs)" by (simp add: Write_def)
      moreover from Inr c have "snd (put s k' d) = s\<lparr>disk := Write fs2 ?p' d\<rparr>"
        by (simp add: put_def)
      ultimately show ?thesis using goal by simp
    qed
  qed
qed

section \<open>Facts about the recency cache\<close>

lemma MoveToFront_set: "set (MoveToFront l e) = set l"
proof (cases "e \<in> set l")
  case True
  then have "insert e (set (remove1 e l)) = set l"
    by (induction l) auto
  with True show ?thesis by (simp add: MoveToFront_def)
next
  case False
  then show ?thesis by (simp add: MoveToFront_def)
qed

lemma MoveToFront_length: "length (MoveToFront l e) = length l"
proof (cases "e \<in> set l")
  case True
  then have "0 < length l" by (rule length_pos_if_in_set)
  with True show ?thesis by (simp add: MoveToFront_def length_remove1)
next
  case False
  then show ?thesis by (simp add: MoveToFront_def)
qed

lemma MoveToFront_distinct: "distinct l \<Longrightarrow> distinct (MoveToFront l e)"
  by (simp add: MoveToFront_def)

lemma MoveToFront_last:
  assumes "distinct l" and "l \<noteq> []"
  shows "MoveToFront l (last l) = last l # butlast l"
proof -
  have l: "l = butlast l @ [last l]" using assms(2) by simp
  with assms(1) have "last l \<notin> set (butlast l)"
    by (metis distinct_append distinct.simps(2) disjoint_iff list.set_intros(1))
  then have "remove1 (last l) (butlast l @ [last l]) = butlast l"
    by (simp add: remove1_append)
  with l assms(2) show ?thesis by (simp add: MoveToFront_def)
qed

lemma cmr_inv_New: "NewCacheMostRecent n = Some c \<Longrightarrow> cmr_inv c"
  by (auto simp: NewCacheMostRecent_def cmr_inv_def split: if_splits)

lemma cmr_inv_Get: "cmr_inv c \<Longrightarrow> cmr_inv (snd (CacheMostRecent_Get c hash))"
  by (auto simp: cmr_inv_def CacheMostRecent_Get_def MoveToFront_set MoveToFront_length
      MoveToFront_distinct split: option.splits)

lemma cmr_inv_SeePut: "cmr_inv c \<Longrightarrow> cmr_inv (CacheMostRecent_SeePut c hash data)"
  unfolding cmr_inv_def CacheMostRecent_SeePut_def
  by (cases "cm_m c hash") (auto, metis+)

lemma SeeGet_below:
  assumes "int (length (cm_l c)) < capacity c"
  shows "CacheMostRecent_SeeGet c hash data =
     Some (c\<lparr>cm_l := cm_next c # cm_l c,
             cm_Value := (cm_Value c)(cm_next c := \<lparr>el_hash = hash, el_data = data\<rparr>),
             cm_m := (cm_m c)(hash \<mapsto> cm_next c),
             cm_next := Suc (cm_next c)\<rparr>)"
  using assms by (simp add: CacheMostRecent_SeeGet_def Let_def)

lemma SeeGet_full:
  assumes "cmr_inv c" and "\<not> int (length (cm_l c)) < capacity c"
  shows "CacheMostRecent_SeeGet c hash data =
     Some (c\<lparr>cm_Value := (cm_Value c)(last (cm_l c) := \<lparr>el_hash = hash, el_data = data\<rparr>),
             cm_l := last (cm_l c) # butlast (cm_l c),
             cm_m := ((cm_m c)(el_hash (cm_Value c (last (cm_l c))) := None))
                       (hash \<mapsto> last (cm_l c))\<rparr>)"
proof -
  from assms have ne: "cm_l c \<noteq> []" and d: "distinct (cm_l c)"
    by (auto simp: cmr_inv_def)
  then obtain x xs where "cm_l c = x # xs" by (cases "cm_l c") auto
  with assms(2) MoveToFront_last[OF d ne] show ?thesis
    by (simp add: CacheMostRecent_SeeGet_def Let_def)
qed

lemma cmr_inv_SeeGet:
  assumes "cmr_inv c"
  shows "\<exists>c'. CacheMostRecent_SeeGet c hash data = Some c' \<and> cmr_inv c'"
proof (cases "int (length (cm_l c)) < capacity c")
  case True
  have "cmr_inv (c\<lparr>cm_l := cm_next c # cm_l c,
             cm_Value := (cm_Value c)(cm_next c := \<lparr>el_hash = hash, el_data = data\<rparr>),
             cm_m := (cm_m c)(hash \<mapsto> cm_next c),
             cm_next := Suc (cm_next c)\<rparr>)"
    using assms True unfolding cmr_inv_def by (auto simp: less_Suc_eq)
  with SeeGet_below[OF True] show ?thesis by simp
next
  case False
  let ?l = "cm_l c"
  from assms False have ne: "?l \<noteq> []" and d: "distinct ?l" by (auto simp: cmr_inv_def)
  have l: "?l = butlast ?l @ [last ?l]" using ne by simp
  have nb: "last ?l \<notin> set (butlast ?l)"
    using d l by (metis distinct_append distinct.simps(2) disjoint_iff list.set_intros(1))
  have set_eq: "insert (last ?l) (set (butlast ?l)) = set ?l"
    using l by (metis Un_insert_right append_Nil2 list.simps(15) set_append)
  have len: "Suc (length (butlast ?l)) = length ?l" using ne by simp
  have "cmr_inv (c\<lparr>cm_Value := (cm_Value c)(last ?l := \<lparr>el_hash = hash, el_data = data\<rparr>),
             cm_l := last ?l # butlast ?l,
             cm_m := ((cm_m c)(el_hash (cm_Value c (last ?l)) := None))(hash \<mapsto> last ?l)\<rparr>)"
    using assms nb d ne unfolding cmr_inv_def
    by (auto simp: distinct_butlast set_eq len dest: in_set_butlastD)
  with SeeGet_full[OF assms False] show ?thesis by simp
qed

lemma cmr_inv_apply_op:
  assumes "cmr_inv c"
  shows "\<exists>c'. apply_op c x = Some c' \<and> cmr_inv c'"
  using assms cmr_inv_SeeGet cmr_inv_SeePut cmr_inv_Get by (cases x) auto

lemma cmr_inv_run_ops:
  assumes "cmr_inv c"
  shows "\<exists>c'. run_ops (Some c) ops = Some c' \<and> cmr_inv c' \<and> capacity c' = capacity c"
  using assms
proof (induction ops arbitrary: c)
  case Nil
  then show ?case by simp
next
  case (Cons x ops)
  from cmr_inv_apply_op[OF Cons.prems, of x] obtain c1 where
    c1: "apply_op c x = Some c1" "cmr_inv c1" by blast
  have "capacity c1 = capacity c" using c1(1)
    by (cases x)
      (auto simp: CacheMostRecent_SeeGet_def CacheMostRecent_SeePut_def CacheMostRecent_Get_def
        Let_def split: if_splits list.splits option.splits)
  with Cons.IH[OF c1(2)] c1(1) show ?case by simp
qed

lemma cmr_index_card:
  assumes "cmr_inv c"
  shows "card (dom (cm_m c)) \<le> length (cm_l c)"
proof -
  let ?f = "\<lambda>k. the (cm_m c k)"
  have inj: "inj_on ?f (dom (cm_m c))"
  proof (rule inj_onI)
    fix k1 k2 assume "k1 \<in> dom (cm_m c)" "k2 \<in> dom (cm_m c)" "?f k1 = ?f k2"
    then obtain p where "cm_m c k1 = Some p" "cm_m c k2 = Some p" by auto
    with assms show "k1 = k2" unfolding cmr_inv_def by metis
  qed
  have "?f ` dom (cm_m c) \<subseteq> set (cm_l c)"
    using assms unfolding cmr_inv_def by auto
  then have "card (?f ` dom (cm_m c)) \<le> card (set (cm_l c))"
    by (simp add: card_mono)
  also have "\<dots> \<le> length (cm_l c)" by (rule card_length)
  finally show ?thesis using card_image[OF inj] by simp
qed

lemma entries_SeeGet_full:
  assumes "cmr_inv c" and "\<not> int (length (cm_l c)) < capacity c"
    and "CacheMostRecent_SeeGet c hash data = Some c'"
  shows "entries c' = \<lparr>el_hash = hash, el_data = data\<rparr> # butlast (entries c)"
    and "cm_m c' = ((cm_m c)(el_hash (last (entries c)) := None))(hash \<mapsto> last (cm_l c))"
proof -
  let ?l = "cm_l c"
  from assms have ne: "?l \<noteq> []" and d: "distinct ?l" by (auto simp: cmr_inv_def)
  have l: "?l = butlast ?l @ [last ?l]" using ne by simp
  have nb: "last ?l \<notin> set (butlast ?l)"
    using d l by (metis distinct_append distinct.simps(2) disjoint_iff list.set_intros(1))
  from SeeGet_full[OF assms(1,2), of hash data] assms(3)
  have c': "c' = c\<lparr>cm_Value := (cm_Value c)(last ?l := \<lparr>el_hash = hash, el_data = data\<rparr>),
             cm_l := last ?l # butlast ?l,
             cm_m := ((cm_m c)(el_hash (cm_Value c (last ?l)) := None))(hash \<mapsto> last ?l)\<rparr>"
    by simp
  have "map ((cm_Value c)(last ?l := \<lparr>el_hash = hash, el_data = data\<rparr>)) (butlast ?l)
      = map (cm_Value c) (butlast ?l)"
    using nb by (intro map_cong) auto
  then show "entries c' = \<lparr>el_hash = hash, el_data = data\<rparr> # butlast (entries c)"
    by (simp add: c' entries_def map_butlast)
  show "cm_m c' = ((cm_m c)(el_hash (last (entries c)) := None))(hash \<mapsto> last (cm_l c))"
    using ne by (simp add: c' entries_def last_map)
qed

section \<open>Facts about Put and Get\<close>

lemma Get_invalid:
  "\<not> valid_key hash \<Longrightarrow> Get s hash = Some ((None, Some ErrInvalidHash), [], s)"
  by (simp add: Get_def valid_key_def)

lemma get_Cache [simp]: "get (s\<lparr>Cache := c\<rparr>) hash = get s hash"
  by (simp add: get_def hashDir_def)

lemma cache_lookup_fields [simp]:
  "inTransfer (snd (cache_lookup s hash)) = inTransfer s"
  "Inventory (snd (cache_lookup s hash)) = Inventory s"
  "disk (snd (cache_lookup s hash)) = disk s"
  "Path (snd (cache_lookup s hash)) = Path s"
  "writeErr (snd (cache_lookup s hash)) = writeErr s"
  "goroutines (snd (cache_lookup s hash)) = goroutines s"
  "activeWrites (snd (cache_lookup s hash)) = activeWrites s"
  "Limiter (snd (cache_lookup s hash)) = Limiter s"
  by (simp_all add: cache_lookup_def split: option.splits)

lemma cache_lookup_None [simp]: "Cache s = None \<Longrightarrow> cache_lookup s hash = (None, s)"
  by (simp add: cache_lookup_def)

lemma get_cache_lookup [simp]: "get (snd (cache_lookup s hash')) hash = get s hash"
  by (simp add: cache_lookup_def split: option.splits)

text \<open>\<^verbatim>\<open>Get\<close> of a valid hash, with its first block folded into \<open>cache_lookup\<close>.\<close>

lemma Get_unfold:
  assumes "valid_key hash"
  shows "Get s hash =
     (if fst (cache_lookup s hash) \<noteq> None
      then Some ((fst (cache_lookup s hash), None), cache_trace s, snd (cache_lookup s hash))
      else
        (case transfer_lookup s hash of
           Some b \<Rightarrow>
             Some ((b, None), cache_trace s @ [TransferCache], snd (cache_lookup s hash))
         | None \<Rightarrow>
             if ledger_unknown s hash
             then Some ((None, Some ErrDoesNotExist),
                        cache_trace s @ transfer_trace s @ [Ledger], snd (cache_lookup s hash))
             else
               (case (snd (get s hash), Cache (snd (cache_lookup s hash))) of
                  (None, Some (CacheMostRecentPtr c)) \<Rightarrow>
                    (case CacheMostRecent_SeeGet c hash (fst (get s hash)) of
                       None \<Rightarrow> None
                     | Some c' \<Rightarrow>
                         Some (get s hash,
                               cache_trace s @ transfer_trace s @ ledger_trace s @
                                 [DiskRead, RetrievalHook],
                               snd (cache_lookup s hash)\<lparr>Cache := Some (CacheMostRecentPtr c')\<rparr>))
                | _ \<Rightarrow>
                    Some (get s hash,
                          cache_trace s @ transfer_trace s @ ledger_trace s @ [DiskRead],
                          snd (cache_lookup s hash)))))"
proof -
  have v: "hash \<noteq> []" "Separator \<notin> set hash"
    using assms by (simp_all add: valid_key_def)
  obtain data err where g: "get s hash = (data, err)" by (cases "get s hash")
  obtain b s1 where cl: "cache_lookup s hash = (b, s1)" by (cases "cache_lookup s hash")
  have s1: "s1 = (case Cache s of None \<Rightarrow> s | Some c \<Rightarrow> s\<lparr>Cache := Some (snd (cache_Get c hash))\<rparr>)"
    and b: "b = (case Cache s of None \<Rightarrow> None | Some c \<Rightarrow> fst (cache_Get c hash))"
    using cl by (auto simp: cache_lookup_def split: option.splits)
  have first: "(case Cache s of
                  None \<Rightarrow> (None, [], s)
                | Some c \<Rightarrow>
                    (case cache_Get c hash of
                       (b, c') \<Rightarrow> (b, [ReadCache], s\<lparr>Cache := Some c'\<rparr>))) = (b, cache_trace s, s1)"
    by (simp add: s1 b cache_trace_def case_prod_beta split: option.splits)
  have s1f: "inTransfer s1 = inTransfer s" "Inventory s1 = Inventory s" "get s1 hash = get s hash"
    using cache_lookup_fields(1,2)[of s hash] get_cache_lookup[of s hash hash] cl by simp_all
  have second: "(case inTransfer s of
                        None \<Rightarrow> (None, cache_trace s)
                      | Some m \<Rightarrow> (m hash, cache_trace s @ [TransferCache]))
      = (transfer_lookup s hash, cache_trace s @ transfer_trace s)"
    by (simp add: transfer_lookup_def transfer_trace_def split: option.splits)
  have third: "(case Inventory s of
                  None \<Rightarrow> (False, cache_trace s @ transfer_trace s)
                | Some i \<Rightarrow> (\<not> Has i hash, (cache_trace s @ transfer_trace s) @ [Ledger]))
      = (ledger_unknown s hash, cache_trace s @ transfer_trace s @ ledger_trace s)"
    by (simp add: ledger_unknown_def ledger_trace_def split: option.splits)
  have tt: "transfer_lookup s hash \<noteq> None \<Longrightarrow> transfer_trace s = [TransferCache]"
    by (auto simp: transfer_lookup_def transfer_trace_def split: option.splits)
  have lt: "ledger_unknown s hash \<Longrightarrow> ledger_trace s = [Ledger]"
    by (auto simp: ledger_unknown_def ledger_trace_def split: option.splits)
  show ?thesis
  proof (cases b)
    case (Some x)
    then show ?thesis
      unfolding Get_def by (simp add: v first cl)
  next
    case None
    show ?thesis
    proof (cases "transfer_lookup s hash")
      case tl: (Some y)
      with None tt show ?thesis
        unfolding Get_def by (simp add: v first cl s1f second)
    next
      case tl: None
      show ?thesis
      proof (cases "ledger_unknown s hash")
        case True
        with None tl lt show ?thesis
          unfolding Get_def by (simp add: v first cl s1f second third)
      next
        case False
        with None tl show ?thesis
          unfolding Get_def
          by (simp add: v first cl s1f second third g split: option.splits cache.splits)
      qed
    qed
  qed
qed

lemma cache_Get_recent:
  "cache_Get (CacheMostRecentPtr c) hash =
     (fst (CacheMostRecent_Get c hash), CacheMostRecentPtr (snd (CacheMostRecent_Get c hash)))"
  by (simp add: case_prod_beta)

lemma cache_lookup_wf: "cache_wf (Cache s) \<Longrightarrow> cache_wf (Cache (snd (cache_lookup s hash)))"
proof (cases "Cache s")
  case None
  then show ?thesis by simp
next
  case (Some c)
  assume wf: "cache_wf (Cache s)"
  show ?thesis
  proof (cases c)
    case (CacheAllPtr ca)
    with Some show ?thesis by (simp add: cache_lookup_def)
  next
    case (CacheMostRecentPtr cm)
    with Some wf have "cmr_inv (snd (CacheMostRecent_Get cm hash))"
      by (simp add: cmr_inv_Get)
    with Some CacheMostRecentPtr show ?thesis
      by (simp add: cache_lookup_def case_prod_beta)
  qed
qed

lemma cache_lookup_kind:
  "(Cache (snd (cache_lookup s hash)) = None \<longleftrightarrow> Cache s = None) \<and>
   ((\<exists>c. Cache (snd (cache_lookup s hash)) = Some (CacheMostRecentPtr c)) \<longleftrightarrow>
    (\<exists>c. Cache s = Some (CacheMostRecentPtr c)))"
proof (cases "Cache s")
  case None
  then show ?thesis by simp
next
  case (Some c)
  then show ?thesis by (cases c) (simp_all add: cache_lookup_def case_prod_beta)
qed

lemma cache_hit_trace: "fst (cache_lookup s hash) = Some b \<Longrightarrow> cache_trace s = [ReadCache]"
  by (auto simp: cache_lookup_def cache_trace_def split: option.splits)

lemma Get_hit:
  assumes "valid_key hash" and "fst (cache_lookup s hash) = Some b"
  shows "Get s hash = Some ((Some b, None), [ReadCache], snd (cache_lookup s hash))"
  using assms cache_hit_trace[OF assms(2)] by (simp add: Get_unfold)

lemma Get_transfer:
  assumes "valid_key hash" and "fst (cache_lookup s hash) = None"
    and "transfer_lookup s hash = Some b"
  shows "Get s hash =
     Some ((b, None), cache_trace s @ [TransferCache], snd (cache_lookup s hash))"
  using assms by (simp add: Get_unfold)

lemma Get_unknown:
  assumes "valid_key hash" and "fst (cache_lookup s hash) = None"
    and "transfer_lookup s hash = None" and "ledger_unknown s hash"
  shows "Get s hash =
     Some ((None, Some ErrDoesNotExist), cache_trace s @ transfer_trace s @ [Ledger],
           snd (cache_lookup s hash))"
  using assms by (simp add: Get_unfold)

text \<open>
  The last block: the file is read, and a recency cache sees a successful read. With a
  well-formed cache the hook does not panic.
\<close>

lemma Get_disk:
  assumes "valid_key hash" and "fst (cache_lookup s hash) = None"
    and "transfer_lookup s hash = None" and "\<not> ledger_unknown s hash"
    and "cache_wf (Cache s)"
  shows "\<exists>tr s'. Get s hash = Some (get s hash, tr, s') \<and>
           tr = cache_trace s @ transfer_trace s @ ledger_trace s @
                (if snd (get s hash) = None \<and> (\<exists>c. Cache s = Some (CacheMostRecentPtr c))
                 then [DiskRead, RetrievalHook] else [DiskRead]) \<and>
           (if snd (get s hash) = None \<and> (\<exists>c. Cache s = Some (CacheMostRecentPtr c))
            then \<exists>c c'. Cache (snd (cache_lookup s hash)) = Some (CacheMostRecentPtr c) \<and>
                   CacheMostRecent_SeeGet c hash (fst (get s hash)) = Some c' \<and>
                   s' = snd (cache_lookup s hash)\<lparr>Cache := Some (CacheMostRecentPtr c')\<rparr>
            else s' = snd (cache_lookup s hash))"
proof (cases "snd (get s hash) = None \<and> (\<exists>c. Cache s = Some (CacheMostRecentPtr c))")
  case True
  with cache_lookup_kind[of s hash] obtain c where
    c: "Cache (snd (cache_lookup s hash)) = Some (CacheMostRecentPtr c)" by auto
  with cache_lookup_wf[OF assms(5), of hash] have "cmr_inv c" by simp
  from cmr_inv_SeeGet[OF this, of hash "fst (get s hash)"] obtain c' where
    c': "CacheMostRecent_SeeGet c hash (fst (get s hash)) = Some c'" by blast
  from True assms(1-4) c c' show ?thesis by (simp add: Get_unfold)
next
  case False
  then have "snd (get s hash) \<noteq> None \<or> (\<forall>c. Cache (snd (cache_lookup s hash)) \<noteq> Some (CacheMostRecentPtr c))"
    using cache_lookup_kind[of s hash] by auto
  then have "Get s hash = Some (get s hash,
       cache_trace s @ transfer_trace s @ ledger_trace s @ [DiskRead], snd (cache_lookup s hash))"
    using assms(1-4)
    by (auto simp: Get_unfold split: option.splits cache.splits)
  with False show ?thesis by simp
qed

lemma layers_ordered:
  "subseq (cache_trace s @ transfer_trace s @ ledger_trace s @ [DiskRead, RetrievalHook])
     [ReadCache, TransferCache, Ledger, DiskRead, RetrievalHook]"
  by (simp add: cache_trace_def transfer_trace_def ledger_trace_def)

lemma layers_ordered_prefix:
  assumes "prefix tr (cache_trace s @ transfer_trace s @ ledger_trace s @ [DiskRead, RetrievalHook])"
  shows "subseq tr [ReadCache, TransferCache, Ledger, DiskRead, RetrievalHook]"
proof -
  from assms have "subseq tr (cache_trace s @ transfer_trace s @ ledger_trace s @ [DiskRead, RetrievalHook])"
    by (rule prefix_imp_subseq)
  with layers_ordered[of s] show ?thesis
    using subseq_order.order_trans by blast
qed

lemma SeeGet_then_Get:
  assumes "CacheMostRecent_SeeGet c hash data = Some c'"
  shows "fst (CacheMostRecent_Get c' hash) = data"
  using assms
  by (auto simp: CacheMostRecent_SeeGet_def CacheMostRecent_Get_def Let_def
      split: if_splits list.splits)

lemma get_ok_data: "snd (get s hash) = None \<Longrightarrow> fst (get s hash) \<noteq> None"
  by (auto simp: get_def ReadAll_def split: sum.splits node.splits)

lemma Get_hook_state:
  assumes "valid_key hash" and "Get s hash = Some (r, tr, s')" and "RetrievalHook \<in> set tr"
  shows "r = get s hash \<and> snd r = None \<and>
         (\<exists>c c'. Cache (snd (cache_lookup s hash)) = Some (CacheMostRecentPtr c) \<and>
            CacheMostRecent_SeeGet c hash (fst r) = Some c' \<and>
            s' = snd (cache_lookup s hash)\<lparr>Cache := Some (CacheMostRecentPtr c')\<rparr>)"
proof -
  have ct: "RetrievalHook \<notin> set (cache_trace s)" "RetrievalHook \<notin> set (transfer_trace s)"
    "RetrievalHook \<notin> set (ledger_trace s)"
    by (simp_all add: cache_trace_def transfer_trace_def ledger_trace_def)
  from assms(2,3) ct show ?thesis
    unfolding Get_unfold[OF assms(1)]
    by (auto split: if_splits option.splits cache.splits)
qed

lemma Get_CacheAll_same:
  assumes "Cache s = Some (CacheAllPtr ca)" and "Get s hash = Some (r, tr, s')"
  shows "s' = s"
proof (cases "valid_key hash")
  case False
  from Get_invalid[OF False, of s] assms(2) show ?thesis by simp
next
  case True
  have cl: "snd (cache_lookup s hash) = s"
    using assms(1) by (simp add: cache_lookup_def)
  from assms(2) show ?thesis
    unfolding Get_unfold[OF True] cl using assms(1)
    by (auto split: if_splits option.splits)
qed

section \<open>Facts about the goroutines\<close>

lemma get_cong: "Path s' = Path s \<Longrightarrow> disk s' = disk s \<Longrightarrow> get s' hash = get s hash"
  by (simp add: get_def hashDir_def)

lemma readable_cong: "Path s' = Path s \<Longrightarrow> disk s' = disk s \<Longrightarrow> readable s' hash = readable s hash"
  using get_cong[of s' s hash] by (simp add: readable_def)

lemma put_Path [simp]: "Path (snd (put s hash data)) = Path s"
  by (simp add: put_def Let_def split: sum.splits)

lemma put_fields [simp]:
  "writeErr (snd (put s hash data)) = writeErr s"
  "Inventory (snd (put s hash data)) = Inventory s"
  "inTransfer (snd (put s hash data)) = inTransfer s"
  "activeWrites (snd (put s hash data)) = activeWrites s"
  "goroutines (snd (put s hash data)) = goroutines s"
  "Cache (snd (put s hash data)) = Cache s"
  "Limiter (snd (put s hash data)) = Limiter s"
  by (simp_all add: put_def Let_def split: sum.splits)

text \<open>The five kinds of step.\<close>

lemma goroutine_step_AtPut:
  assumes "i < length (goroutines s)" and "g_pc (goroutines s ! i) = AtPut"
  shows "goroutine_step i s =
     Some ((snd (put s (g_hash (goroutines s ! i)) (g_data (goroutines s ! i))))
       \<lparr>goroutines := (goroutines s)[i := (goroutines s ! i)
          \<lparr>g_err := fst (put s (g_hash (goroutines s ! i)) (g_data (goroutines s ! i))),
           g_pc := AtRecord\<rparr>]\<rparr>)"
  using assms by (simp add: goroutine_step_def Let_def case_prod_beta)

lemma goroutine_step_AtRecord:
  assumes "i < length (goroutines s)" and "g_pc (goroutines s ! i) = AtRecord"
  shows "goroutine_step i s =
     Some ((case g_err (goroutines s ! i) of
              Some e \<Rightarrow> s\<lparr>writeErr := Some e\<rparr>
            | None \<Rightarrow>
                (case Inventory s of
                   None \<Rightarrow> s
                 | Some ivt \<Rightarrow> s\<lparr>Inventory := Some (See ivt (g_hash (goroutines s ! i)))\<rparr>))
       \<lparr>goroutines := (goroutines s)[i := (goroutines s ! i)\<lparr>g_pc := AtRemove\<rparr>]\<rparr>)"
  using assms by (simp add: goroutine_step_def Let_def)

lemma goroutine_step_AtRemove:
  assumes "i < length (goroutines s)" and "g_pc (goroutines s ! i) = AtRemove"
  shows "goroutine_step i s =
     Some (s\<lparr>inTransfer := map_option (\<lambda>m. m(g_hash (goroutines s ! i) := None)) (inTransfer s),
             goroutines := (goroutines s)[i := (goroutines s ! i)\<lparr>g_pc := AtDone\<rparr>]\<rparr>)"
  using assms by (simp add: goroutine_step_def Let_def)

lemma goroutine_step_AtDone:
  assumes "i < length (goroutines s)" and "g_pc (goroutines s ! i) = AtDone"
  shows "goroutine_step i s =
     Some (s\<lparr>activeWrites := activeWrites s - 1,
             goroutines := take i (goroutines s) @ drop (Suc i) (goroutines s)\<rparr>)"
  using assms by (simp add: goroutine_step_def Let_def)

lemma goroutine_step_index: "goroutine_step i s = Some s' \<Longrightarrow> i < length (goroutines s)"
  by (simp add: goroutine_step_def split: if_splits)

lemma goroutine_step_total: "i < length (goroutines s) \<Longrightarrow> \<exists>s'. goroutine_step i s = Some s'"
  by (cases "g_pc (goroutines s ! i)")
    (simp_all add: goroutine_step_AtPut goroutine_step_AtRecord goroutine_step_AtRemove
      goroutine_step_AtDone)

text \<open>Only the deferred deletion changes the transfer cache.\<close>

lemma goroutine_step_inTransfer:
  assumes "goroutine_step i s = Some s'" and "g_pc (goroutines s ! i) \<noteq> AtRemove"
  shows "inTransfer s' = inTransfer s"
proof -
  from assms(1) have i: "i < length (goroutines s)" by (rule goroutine_step_index)
  show ?thesis
  proof (cases "g_pc (goroutines s ! i)")
    case AtPut
    from goroutine_step_AtPut[OF i AtPut] assms(1) show ?thesis by auto
  next
    case AtRecord
    from goroutine_step_AtRecord[OF i AtRecord] assms(1) show ?thesis
      by (auto split: option.splits)
  next
    case AtRemove
    with assms(2) show ?thesis by simp
  next
    case AtDone
    from goroutine_step_AtDone[OF i AtDone] assms(1) show ?thesis by auto
  qed
qed

subsection \<open>What every step keeps\<close>

lemma grows_refl: "grows s s"
  by (simp add: grows_def keeps_refl)

lemma grows_same:
  assumes "Path s' = Path s" and "disk s' = disk s" and "writeErr s' = writeErr s"
    and "Inventory s' = Inventory s"
  shows "grows s s'"
  using assms by (simp add: grows_def knows_def keeps_refl)

lemma See_Has: "Has (See i hash) hash' \<longleftrightarrow> hash' = hash \<or> Has i hash'"
  by (simp add: See_def Has_def)

lemma grows_goroutine_step:
  assumes "goroutine_step i s = Some s'"
  shows "grows s s'"
proof -
  from assms have i: "i < length (goroutines s)" by (rule goroutine_step_index)
  let ?g = "goroutines s ! i"
  show ?thesis
  proof (cases "g_pc ?g")
    case AtPut
    from goroutine_step_AtPut[OF i AtPut] assms put_keeps[of s "g_hash ?g" "g_data ?g"]
    show ?thesis by (auto simp: grows_def knows_def)
  next
    case AtRecord
    show ?thesis
    proof (cases "g_err ?g")
      case (Some e)
      with goroutine_step_AtRecord[OF i AtRecord] assms show ?thesis
        by (auto simp: grows_def knows_def keeps_refl)
    next
      case None
      with goroutine_step_AtRecord[OF i AtRecord] assms show ?thesis
        by (cases "Inventory s") (auto simp: grows_def knows_def keeps_refl See_Has)
    qed
  next
    case AtRemove
    from goroutine_step_AtRemove[OF i AtRemove] assms show ?thesis
      by (intro grows_same) auto
  next
    case AtDone
    from goroutine_step_AtDone[OF i AtDone] assms show ?thesis
      by (intro grows_same) auto
  qed
qed

lemma Put_same:
  "Path (snd (Put s hash data)) = Path s"
  "disk (snd (Put s hash data)) = disk s"
  "writeErr (snd (Put s hash data)) = writeErr s"
  "Inventory (snd (Put s hash data)) = Inventory s"
  "Limiter (snd (Put s hash data)) = Limiter s"
  by (simp_all add: Put_def Let_def split: option.splits)

lemma grows_Put: "grows s (snd (Put s hash data))"
  by (intro grows_same) (simp_all add: Put_same)

lemma cache_lookup_form: "\<exists>c. snd (cache_lookup s hash) = s\<lparr>Cache := c\<rparr>"
proof (cases "Cache s")
  case None
  then have "snd (cache_lookup s hash) = s\<lparr>Cache := None\<rparr>" by simp
  then show ?thesis by blast
next
  case (Some c)
  then show ?thesis by (auto simp: cache_lookup_def)
qed

lemma Get_form:
  assumes "Get s hash = Some (r, tr, s')"
  shows "\<exists>c. s' = s\<lparr>Cache := c\<rparr>"
proof (cases "valid_key hash")
  case False
  from Get_invalid[OF False, of s] assms have "s' = s\<lparr>Cache := Cache s\<rparr>" by simp
  then show ?thesis by blast
next
  case True
  obtain c where c: "snd (cache_lookup s hash) = s\<lparr>Cache := c\<rparr>"
    using cache_lookup_form by blast
  from assms have "s' = snd (cache_lookup s hash) \<or> (\<exists>c'. s' = snd (cache_lookup s hash)\<lparr>Cache := c'\<rparr>)"
    unfolding Get_unfold[OF True]
    by (auto split: if_splits option.splits cache.splits)
  then show ?thesis
  proof
    assume "s' = snd (cache_lookup s hash)"
    with c show ?thesis by blast
  next
    assume "\<exists>c'. s' = snd (cache_lookup s hash)\<lparr>Cache := c'\<rparr>"
    then obtain c' where "s' = s\<lparr>Cache := c'\<rparr>" using c by auto
    then show ?thesis by blast
  qed
qed

lemma Get_same:
  assumes "Get s hash = Some (r, tr, s')"
  shows "Path s' = Path s" "disk s' = disk s" "writeErr s' = writeErr s"
    "Inventory s' = Inventory s" "inTransfer s' = inTransfer s"
    "goroutines s' = goroutines s" "activeWrites s' = activeWrites s" "Limiter s' = Limiter s"
proof -
  from Get_form[OF assms] obtain c where "s' = s\<lparr>Cache := c\<rparr>" by blast
  then show "Path s' = Path s" "disk s' = disk s" "writeErr s' = writeErr s"
    "Inventory s' = Inventory s" "inTransfer s' = inTransfer s"
    "goroutines s' = goroutines s" "activeWrites s' = activeWrites s" "Limiter s' = Limiter s"
    by simp_all
qed

lemma grows_Get: "Get s hash = Some (r, tr, s') \<Longrightarrow> grows s s'"
  by (intro grows_same) (simp_all add: Get_same)

lemma readable_grows:
  assumes "grows s s'" and "readable s hash"
  shows "readable s' hash"
proof -
  from assms have "snd (get (s\<lparr>disk := disk s'\<rparr>) hash) = None"
    using get_ok_keeps[of s hash "disk s'"] by (simp add: grows_def readable_def)
  moreover have "get s' hash = get (s\<lparr>disk := disk s'\<rparr>) hash"
    using assms(1) get_cong[of s' "s\<lparr>disk := disk s'\<rparr>" hash] by (simp add: grows_def)
  ultimately show ?thesis by (simp add: readable_def)
qed

lemma registered_knows: "registered s hash \<longleftrightarrow> Inventory s = None \<or> knows s hash"
  by (simp add: registered_def knows_def split: option.splits)

lemma registered_grows:
  assumes "grows s s'" and "registered s hash"
  shows "registered s' hash"
  using assms unfolding registered_knows grows_def by auto

lemma settled_grows:
  assumes "grows s s'" and "settled s g"
  shows "settled s' g"
proof (cases "g_err g")
  case None
  with assms(2) have "readable s (g_hash g)" "registered s (g_hash g)"
    by (simp_all add: settled_def)
  with assms(1) have "readable s' (g_hash g)" "registered s' (g_hash g)"
    by (simp_all add: readable_grows registered_grows)
  with None show ?thesis by (simp add: settled_def)
next
  case (Some e)
  with assms(2) have "writeErr s \<noteq> None" by (simp add: settled_def)
  with assms(1) have "writeErr s' \<noteq> None" by (simp add: grows_def)
  with Some show ?thesis by (simp add: settled_def)
qed

lemma goroutine_inv_grows:
  assumes "grows s s'" and "goroutine_inv s g"
  shows "goroutine_inv s' g"
proof (cases "g_pc g")
  case AtPut
  then show ?thesis by (simp add: goroutine_inv_def)
next
  case AtRecord
  with assms(2) have "g_err g = None \<longrightarrow> readable s (g_hash g)" by (simp add: goroutine_inv_def)
  with assms(1) have "g_err g = None \<longrightarrow> readable s' (g_hash g)" by (blast intro: readable_grows)
  with AtRecord show ?thesis by (simp add: goroutine_inv_def)
next
  case AtRemove
  with assms(2) have "settled s g" by (simp add: goroutine_inv_def)
  from settled_grows[OF assms(1) this] AtRemove show ?thesis by (simp add: goroutine_inv_def)
next
  case AtDone
  with assms(2) have "settled s g" by (simp add: goroutine_inv_def)
  from settled_grows[OF assms(1) this] AtDone show ?thesis by (simp add: goroutine_inv_def)
qed

subsection \<open>The invariant of the store\<close>

lemma store_inv_New: "store_inv (NewStore lim c ivt p fs)"
  by (simp add: store_inv_def NewStore_def)

lemma Put_goroutines:
  "(goroutines (snd (Put s hash data)) = goroutines s \<and>
    activeWrites (snd (Put s hash data)) = activeWrites s) \<or>
   (goroutines (snd (Put s hash data)) =
      goroutines s @ [\<lparr>g_hash = hash, g_data = data, g_err = None, g_pc = AtPut\<rparr>] \<and>
    activeWrites (snd (Put s hash data)) = activeWrites s + 1)"
  by (simp add: Put_def Let_def split: option.splits)

lemma store_inv_Put:
  assumes "store_inv s"
  shows "store_inv (snd (Put s hash data))"
proof -
  let ?s' = "snd (Put s hash data)"
  let ?g = "\<lparr>g_hash = hash, g_data = data, g_err = None, g_pc = AtPut\<rparr>"
  have new: "goroutine_inv ?s' ?g" by (simp add: goroutine_inv_def)
  have old: "goroutine_inv ?s' g" if "g \<in> set (goroutines s)" for g
    using assms that goroutine_inv_grows[OF grows_Put] by (simp add: store_inv_def)
  from Put_goroutines[of s hash data] show ?thesis
  proof
    assume "goroutines ?s' = goroutines s \<and> activeWrites ?s' = activeWrites s"
    with assms old show ?thesis by (simp add: store_inv_def)
  next
    assume "goroutines ?s' = goroutines s @ [?g] \<and> activeWrites ?s' = activeWrites s + 1"
    with assms old new show ?thesis by (auto simp: store_inv_def)
  qed
qed

lemma store_inv_Get:
  assumes "store_inv s" and "Get s hash = Some (r, tr, s')"
  shows "store_inv s'"
  using assms goroutine_inv_grows[OF grows_Get[OF assms(2)]] Get_same[OF assms(2)]
  by (simp add: store_inv_def)

lemma settled_cong: "g_err g' = g_err g \<Longrightarrow> g_hash g' = g_hash g \<Longrightarrow> settled s g' = settled s g"
  by (simp add: settled_def split: option.splits)

lemma set_remove_nth: "set (take i xs @ drop (Suc i) xs) \<subseteq> set xs"
  using set_take_subset[of i xs] set_drop_subset[of "Suc i" xs] by auto

lemma length_remove_nth: "i < length xs \<Longrightarrow> int (length (take i xs @ drop (Suc i) xs)) = int (length xs) - 1"
  by auto

lemma store_inv_step:
  assumes "store_inv s" and "goroutine_step i s = Some s'"
  shows "store_inv s'"
proof -
  from assms(2) have i: "i < length (goroutines s)" by (rule goroutine_step_index)
  let ?g = "goroutines s ! i"
  have gi: "goroutine_inv s ?g" using assms(1) i by (simp add: store_inv_def)
  have gr: "grows s s'" using assms(2) by (rule grows_goroutine_step)
  have old: "goroutine_inv s' g" if "g \<in> set (goroutines s)" for g
    using assms(1) that goroutine_inv_grows[OF gr] by (simp add: store_inv_def)
  have upd: "store_inv s'"
    if gs: "goroutines s' = (goroutines s)[i := g']" and n: "goroutine_inv s' g'"
      and a: "activeWrites s' = activeWrites s" for g'
  proof -
    have "\<forall>g \<in> set (goroutines s'). goroutine_inv s' g"
    proof
      fix g assume "g \<in> set (goroutines s')"
      with gs have "g = g' \<or> g \<in> set (goroutines s)"
        using set_update_subset_insert[of "goroutines s" i g'] by auto
      with n old show "goroutine_inv s' g" by blast
    qed
    with assms(1) gs a show ?thesis by (simp add: store_inv_def)
  qed
  show ?thesis
  proof (cases "g_pc ?g")
    case AtPut
    let ?p = "put s (g_hash ?g) (g_data ?g)"
    let ?g' = "?g\<lparr>g_err := fst ?p, g_pc := AtRecord\<rparr>"
    from goroutine_step_AtPut[OF i AtPut] assms(2)
    have s': "s' = (snd ?p)\<lparr>goroutines := (goroutines s)[i := ?g']\<rparr>" by simp
    have "readable s' (g_hash ?g)" if "fst ?p = None"
    proof -
      from put_then_get[OF that] have "readable (snd ?p) (g_hash ?g)" by (simp add: readable_def)
      moreover have "Path s' = Path (snd ?p)" "disk s' = disk (snd ?p)" by (simp_all add: s')
      ultimately show ?thesis using readable_cong by blast
    qed
    then have "goroutine_inv s' ?g'" by (simp add: goroutine_inv_def)
    moreover have "goroutines s' = (goroutines s)[i := ?g']" "activeWrites s' = activeWrites s"
      by (simp_all add: s')
    ultimately show ?thesis using upd by blast
  next
    case AtRecord
    let ?g' = "?g\<lparr>g_pc := AtRemove\<rparr>"
    have pre: "g_err ?g = None \<longrightarrow> readable s (g_hash ?g)"
      using gi AtRecord by (simp add: goroutine_inv_def)
    have "settled s' ?g'"
    proof (cases "g_err ?g")
      case (Some e)
      with goroutine_step_AtRecord[OF i AtRecord] assms(2) have "writeErr s' = Some e" by auto
      with Some show ?thesis by (simp add: settled_def)
    next
      case None
      with pre gr have d: "readable s' (g_hash ?g)" by (simp add: readable_grows)
      have "registered s' (g_hash ?g)"
        using goroutine_step_AtRecord[OF i AtRecord] assms(2) None
        by (cases "Inventory s") (auto simp: registered_def See_Has)
      with d None show ?thesis by (simp add: settled_def)
    qed
    then have "goroutine_inv s' ?g'" by (simp add: goroutine_inv_def)
    moreover have "goroutines s' = (goroutines s)[i := ?g']" "activeWrites s' = activeWrites s"
      using goroutine_step_AtRecord[OF i AtRecord] assms(2)
      by (auto split: option.splits)
    ultimately show ?thesis using upd by blast
  next
    case AtRemove
    let ?g' = "?g\<lparr>g_pc := AtDone\<rparr>"
    from gi AtRemove have "settled s ?g" by (simp add: goroutine_inv_def)
    with gr have "settled s' ?g" by (rule settled_grows)
    then have "settled s' ?g'" using settled_cong[of ?g' ?g s'] by simp
    then have "goroutine_inv s' ?g'" by (simp add: goroutine_inv_def)
    moreover have "goroutines s' = (goroutines s)[i := ?g']" "activeWrites s' = activeWrites s"
      using goroutine_step_AtRemove[OF i AtRemove] assms(2) by auto
    ultimately show ?thesis using upd by blast
  next
    case AtDone
    from goroutine_step_AtDone[OF i AtDone] assms(2)
    have gs: "goroutines s' = take i (goroutines s) @ drop (Suc i) (goroutines s)"
      and a: "activeWrites s' = activeWrites s - 1" by auto
    have "\<forall>g \<in> set (goroutines s'). goroutine_inv s' g"
      using gs old set_remove_nth[of i "goroutines s"] by auto
    moreover have "activeWrites s' = int (length (goroutines s'))"
      using assms(1) a gs length_remove_nth[OF i] by (simp add: store_inv_def)
    ultimately show ?thesis by (simp add: store_inv_def)
  qed
qed

lemma store_inv_bg_step: "store_inv s \<Longrightarrow> bg_step s s' \<Longrightarrow> store_inv s'"
  by (auto elim!: bg_step.cases intro: store_inv_step)

lemma evolves_store_inv: "evolves s0 s \<Longrightarrow> store_inv s0 \<Longrightarrow> store_inv s"
  by (induction rule: evolves.induct)
    (auto intro: store_inv_Put store_inv_Get store_inv_bg_step)

lemma grows_trans: "grows s s' \<Longrightarrow> grows s' s'' \<Longrightarrow> grows s s''"
  unfolding grows_def using keeps_trans by auto

lemma grows_bg_step: "bg_step s s' \<Longrightarrow> grows s s'"
  by (auto elim!: bg_step.cases intro: grows_goroutine_step)

lemma evolves_grows: "evolves s0 s \<Longrightarrow> grows s0 s"
proof (induction rule: evolves.induct)
  case (start s)
  show ?case by (rule grows_refl)
next
  case (call_Put s s1 hash data)
  from call_Put.IH grows_Put show ?case by (rule grows_trans)
next
  case (call_Get s s1 hash r tr s2)
  from call_Get.IH grows_Get[OF call_Get.hyps(2)] show ?case by (rule grows_trans)
next
  case (background s s1 s2)
  from background.IH grows_bg_step[OF background.hyps(2)] show ?case by (rule grows_trans)
qed

subsection \<open>Sync\<close>

lemma bg_step_run: "bg_step\<^sup>*\<^sup>* s (run n s)"
proof (induction n arbitrary: s)
  case 0
  show ?case by simp
next
  case (Suc n)
  show ?case
  proof (cases "goroutine_step 0 s")
    case None
    then show ?thesis by simp
  next
    case (Some s')
    then have "bg_step s s'" by (rule bg_step.intros)
    with Suc[of s'] Some show ?thesis by (simp add: converse_rtranclp_into_rtranclp)
  qed
qed

lemma evolves_bg_steps: "bg_step\<^sup>*\<^sup>* s s' \<Longrightarrow> evolves s0 s \<Longrightarrow> evolves s0 s'"
  by (induction rule: rtranclp_induct) (auto intro: evolves.background)

lemma remaining_pos: "0 < remaining p"
  by (cases p) simp_all

lemma work_empty: "work s = 0 \<longleftrightarrow> goroutines s = []"
proof (cases "goroutines s")
  case Nil
  then show ?thesis by (simp add: work_def)
next
  case (Cons g gs)
  then show ?thesis using remaining_pos[of "g_pc g"] by (simp add: work_def)
qed

lemma work_step:
  assumes "goroutine_step 0 s = Some s'"
  shows "work s = Suc (work s')"
proof -
  from assms have i: "0 < length (goroutines s)" by (rule goroutine_step_index)
  then obtain g gs where gs: "goroutines s = g # gs" by (cases "goroutines s") auto
  show ?thesis
  proof (cases "g_pc g")
    case AtPut
    with goroutine_step_AtPut[OF i] assms gs show ?thesis by (auto simp: work_def)
  next
    case AtRecord
    with goroutine_step_AtRecord[OF i] assms gs show ?thesis
      by (auto simp: work_def split: option.splits)
  next
    case AtRemove
    with goroutine_step_AtRemove[OF i] assms gs show ?thesis by (auto simp: work_def)
  next
    case AtDone
    with goroutine_step_AtDone[OF i] assms gs show ?thesis by (auto simp: work_def)
  qed
qed

lemma run_finishes: "work s \<le> n \<Longrightarrow> goroutines (run n s) = []"
proof (induction n arbitrary: s)
  case 0
  then show ?case by (simp add: work_empty)
next
  case (Suc n)
  show ?case
  proof (cases "goroutine_step 0 s")
    case None
    then have "goroutines s = []"
      using goroutine_step_total[of 0 s] by (cases "goroutines s") auto
    with None show ?thesis by simp
  next
    case (Some s')
    from work_step[OF Some] Suc.prems have "work s' \<le> n" by simp
    from Suc.IH[OF this] Some show ?thesis by simp
  qed
qed

lemma work_bound: "work s \<le> 4 * length (goroutines s)"
proof -
  have "sum_list (map (\<lambda>g. remaining (g_pc g)) gs) \<le> 4 * length gs" for gs :: "goroutine list"
  proof (induction gs)
    case Nil
    show ?case by simp
  next
    case (Cons g gs)
    have "remaining (g_pc g) \<le> 4" by (cases "g_pc g") simp_all
    with Cons show ?case by simp
  qed
  then show ?thesis by (simp add: work_def)
qed

lemma store_inv_run: "store_inv s \<Longrightarrow> store_inv (run n s)"
proof (induction n arbitrary: s)
  case 0
  then show ?case by simp
next
  case (Suc n)
  show ?case
  proof (cases "goroutine_step 0 s")
    case None
    with Suc.prems show ?thesis by simp
  next
    case (Some s')
    from store_inv_step[OF Suc.prems Some] Suc.IH Some show ?thesis by simp
  qed
qed

text \<open>\<^verbatim>\<open>Sync\<close> returns: the schedule of \<open>Sync\<close> ends with the counter at zero.\<close>

lemma Sync_returns_Sync:
  assumes "store_inv s"
  shows "Sync_returns s (Sync s)"
proof -
  have "goroutines (Sync s) = []"
    unfolding Sync_def by (rule run_finishes) (rule work_bound)
  moreover have "store_inv (Sync s)"
    unfolding Sync_def using assms by (rule store_inv_run)
  ultimately have "activeWrites (Sync s) = 0" by (simp add: store_inv_def)
  then show ?thesis by (simp add: Sync_returns_def Sync_def bg_step_run)
qed

text \<open>With one goroutine there is one schedule.\<close>

lemma no_goroutines_stuck:
  assumes "bg_step\<^sup>*\<^sup>* s s'" and "goroutines s = []"
  shows "s' = s"
  using assms
proof (induction rule: converse_rtranclp_induct)
  case base
  show ?case by simp
next
  case (step y z)
  from step.hyps(1) step.prems have False
    by (auto elim!: bg_step.cases dest: goroutine_step_index)
  then show ?case ..
qed

lemma single_step:
  assumes "length (goroutines s) = 1" and "bg_step s s'"
  shows "goroutine_step 0 s = Some s'"
proof -
  from assms(2) obtain i where st: "goroutine_step i s = Some s'"
    by (auto elim: bg_step.cases)
  from goroutine_step_index[OF st] assms(1) have "i = 0" by simp
  with st show ?thesis by simp
qed

lemma single_after_step:
  assumes "length (goroutines s) = 1" and "activeWrites s = 1"
    and "goroutine_step 0 s = Some s'"
  shows "if g_pc (goroutines s ! 0) = AtDone
         then goroutines s' = [] \<and> activeWrites s' = 0
         else length (goroutines s') = 1 \<and> activeWrites s' = 1 \<and>
              Suc (remaining (g_pc (goroutines s' ! 0))) = remaining (g_pc (goroutines s ! 0))"
proof -
  from assms(1) have i: "0 < length (goroutines s)" by simp
  from assms(1) obtain g where gs: "goroutines s = [g]"
    by (cases "goroutines s") auto
  show ?thesis
  proof (cases "g_pc g")
    case AtPut
    with goroutine_step_AtPut[OF i] assms gs show ?thesis by auto
  next
    case AtRecord
    with goroutine_step_AtRecord[OF i] assms gs show ?thesis
      by (auto split: option.splits)
  next
    case AtRemove
    with goroutine_step_AtRemove[OF i] assms gs show ?thesis by auto
  next
    case AtDone
    with goroutine_step_AtDone[OF i] assms gs show ?thesis by auto
  qed
qed

lemma single_unique:
  assumes "bg_step\<^sup>*\<^sup>* s s'" and "activeWrites s' = 0"
  shows "length (goroutines s) = 1 \<Longrightarrow> activeWrites s = 1 \<Longrightarrow>
         remaining (g_pc (goroutines s ! 0)) \<le> n \<Longrightarrow> s' = run n s"
  using assms(1)
proof (induction arbitrary: n rule: converse_rtranclp_induct)
  case base
  with assms(2) show ?case by simp
next
  case (step x y)
  from single_step[OF step.prems(1) step.hyps(1)] have st: "goroutine_step 0 x = Some y" .
  from step.prems(3) remaining_pos[of "g_pc (goroutines x ! 0)"] obtain m where n: "n = Suc m"
    by (cases n) auto
  note after = single_after_step[OF step.prems(1,2) st]
  show ?case
  proof (cases "g_pc (goroutines x ! 0) = AtDone")
    case True
    with after have e: "goroutines y = []" by simp
    from no_goroutines_stuck[OF step.hyps(2) e] have "s' = y" .
    moreover have "run m y = y"
      using e by (cases m) (simp_all add: goroutine_step_def)
    ultimately show ?thesis using st n by simp
  next
    case False
    with after have y: "length (goroutines y) = 1" "activeWrites y = 1"
      "Suc (remaining (g_pc (goroutines y ! 0))) = remaining (g_pc (goroutines x ! 0))"
      by simp_all
    with step.prems(3) n have "remaining (g_pc (goroutines y ! 0)) \<le> m" by simp
    from step.IH[OF y(1,2) this] st n show ?thesis by simp
  qed
qed

lemma Sync_single:
  assumes "length (goroutines s) = 1" and "activeWrites s = 1" and "Sync_returns s s'"
  shows "s' = Sync s"
proof -
  have "remaining (g_pc (goroutines s ! 0)) \<le> 4 * length (goroutines s)"
    using assms(1) by (cases "g_pc (goroutines s ! 0)") simp_all
  with assms single_unique[of s s' "4 * length (goroutines s)"] show ?thesis
    by (simp add: Sync_returns_def Sync_def)
qed

text \<open>The store after the one goroutine of an accepted \<^verbatim>\<open>Put\<close> has run to its end.\<close>

lemma run_one_goroutine:
  assumes "goroutines s = [\<lparr>g_hash = hash, g_data = data, g_err = None, g_pc = AtPut\<rparr>]"
  shows "Sync s =
     (case fst (put s hash data) of
        Some e \<Rightarrow> (snd (put s hash data))\<lparr>writeErr := Some e\<rparr>
      | None \<Rightarrow>
          (case Inventory s of
             None \<Rightarrow> snd (put s hash data)
           | Some ivt \<Rightarrow> (snd (put s hash data))\<lparr>Inventory := Some (See ivt hash)\<rparr>))
     \<lparr>inTransfer := map_option (\<lambda>m. m(hash := None)) (inTransfer s),
      activeWrites := activeWrites s - 1,
      goroutines := []\<rparr>"
proof -
  let ?g = "\<lparr>g_hash = hash, g_data = data, g_err = None, g_pc = AtPut\<rparr>"
  let ?p = "put s hash data"
  let ?s1 = "(snd ?p)\<lparr>goroutines := [?g\<lparr>g_err := fst ?p, g_pc := AtRecord\<rparr>]\<rparr>"
  let ?r = "(case fst ?p of
        Some e \<Rightarrow> (snd ?p)\<lparr>writeErr := Some e\<rparr>
      | None \<Rightarrow>
          (case Inventory s of
             None \<Rightarrow> snd ?p
           | Some ivt \<Rightarrow> (snd ?p)\<lparr>Inventory := Some (See ivt hash)\<rparr>))"
  let ?s2 = "?r\<lparr>goroutines := [?g\<lparr>g_err := fst ?p, g_pc := AtRemove\<rparr>]\<rparr>"
  let ?s3 = "?r\<lparr>inTransfer := map_option (\<lambda>m. m(hash := None)) (inTransfer s),
               goroutines := [?g\<lparr>g_err := fst ?p, g_pc := AtDone\<rparr>]\<rparr>"
  let ?s4 = "?r\<lparr>inTransfer := map_option (\<lambda>m. m(hash := None)) (inTransfer s),
               activeWrites := activeWrites s - 1, goroutines := []\<rparr>"
  have r: "inTransfer ?r = inTransfer s" "activeWrites ?r = activeWrites s"
    by (simp_all split: option.splits)
  have 1: "goroutine_step 0 s = Some ?s1"
    using assms goroutine_step_AtPut[of 0 s] by simp
  have 2: "goroutine_step 0 ?s1 = Some ?s2"
    using goroutine_step_AtRecord[of 0 ?s1] by (simp split: option.splits)
  have 3: "goroutine_step 0 ?s2 = Some ?s3"
    using goroutine_step_AtRemove[of 0 ?s2] r by (simp split: option.splits)
  have 4: "goroutine_step 0 ?s3 = Some ?s4"
    using goroutine_step_AtDone[of 0 ?s3] r by (simp split: option.splits)
  have "run 4 s = ?s4"
    using 1 2 3 4 by (simp add: eval_nat_numeral)
  with assms show ?thesis by (simp add: Sync_def)
qed


text \<open>The last step of a schedule of \<open>run\<close>.\<close>

lemma run_end:
  "run (Suc n) s = (case goroutine_step 0 (run n s) of None \<Rightarrow> run n s | Some s' \<Rightarrow> s')"
proof (induction n arbitrary: s)
  case 0
  show ?case by (simp split: option.splits)
next
  case (Suc n)
  show ?case
  proof (cases "goroutine_step 0 s")
    case None
    then have "run k s = s" for k by (cases k) simp_all
    with None show ?thesis by simp
  next
    case (Some s1)
    then have "run (Suc (Suc n)) s = run (Suc n) s1" by simp
    also have "\<dots> = (case goroutine_step 0 (run n s1) of None \<Rightarrow> run n s1 | Some s' \<Rightarrow> s')"
      by (rule Suc.IH)
    also have "run n s1 = run (Suc n) s" using Some by simp
    finally show ?thesis .
  qed
qed

section \<open>Facts about the writes in flight\<close>

lemma stored_cong:
  "Path s' = Path s \<Longrightarrow> disk s' = disk s \<Longrightarrow> g_hash g' = g_hash g \<Longrightarrow> g_data g' = g_data g
   \<Longrightarrow> stored s' g' = stored s g"
  using get_cong[of s' s "g_hash g"] by (simp add: stored_def)

lemma write_ok_transfer:
  assumes "write_ok s i'"
    and "g_hash (goroutines s' ! i) = g_hash (goroutines s ! i')"
    and "g_err (goroutines s' ! i) = g_err (goroutines s ! i')"
    and "g_pc (goroutines s' ! i) \<noteq> AtPut \<longrightarrow> g_pc (goroutines s ! i') \<noteq> AtPut"
    and "g_pc (goroutines s' ! i) = AtRecord \<or> g_pc (goroutines s' ! i) = AtRemove \<longrightarrow>
         g_pc (goroutines s ! i') = AtRecord \<or> g_pc (goroutines s ! i') = AtRemove"
    and "unrivalled s' i \<longrightarrow> unrivalled s i'"
    and "g_pc (goroutines s ! i') \<noteq> AtPut \<and> g_err (goroutines s ! i') = None \<and> unrivalled s' i \<and>
         stored s (goroutines s ! i') \<longrightarrow> stored s' (goroutines s' ! i)"
  shows "write_ok s' i"
  using assms unfolding write_ok_def by auto

lemma write_inv_New: "write_inv (NewStore lim c ivt p fs)"
  by (simp add: write_inv_def NewStore_def)

lemma Put_cases:
  "snd (Put s h d) = s \<or>
   (valid_key h \<and>
    goroutines (snd (Put s h d)) =
      goroutines s @ [\<lparr>g_hash = h, g_data = d, g_err = None, g_pc = AtPut\<rparr>] \<and>
    transfer_lookup (snd (Put s h d)) = (transfer_lookup s)(h \<mapsto> d))"
  by (auto simp: Put_def Let_def valid_key_def transfer_lookup_def fun_eq_iff split: option.splits)

lemma write_inv_Put:
  assumes "write_inv s"
  shows "write_inv (snd (Put s h d))"
proof -
  let ?s' = "snd (Put s h d)"
  let ?new = "\<lparr>g_hash = h, g_data = d, g_err = None, g_pc = AtPut\<rparr>"
  from Put_cases[of s h d] show ?thesis
  proof
    assume "?s' = s"
    with assms show ?thesis by simp
  next
    assume a: "valid_key h \<and> goroutines ?s' = goroutines s @ [?new] \<and>
      transfer_lookup ?s' = (transfer_lookup s)(h \<mapsto> d)"
    then have gs: "goroutines ?s' = goroutines s @ [?new]"
      and tl: "\<And>k. transfer_lookup ?s' k = ((transfer_lookup s)(h \<mapsto> d)) k" by simp_all
    have "write_ok ?s' i" if i: "i < length (goroutines ?s')" for i
    proof (cases "i < length (goroutines s)")
      case True
      then have g: "goroutines ?s' ! i = goroutines s ! i" using gs by (simp add: nth_append)
      from assms True have ok: "write_ok s i" by (simp add: write_inv_def)
      have u: "unrivalled s i" if u': "unrivalled ?s' i"
      proof -
        from u' have own: "transfer_lookup ?s' (g_hash (goroutines ?s' ! i)) =
            Some (g_data (goroutines ?s' ! i))"
          and others: "\<And>j. j < length (goroutines ?s') \<Longrightarrow> j \<noteq> i \<Longrightarrow>
            g_hash (goroutines ?s' ! j) = g_hash (goroutines ?s' ! i) \<Longrightarrow>
            g_pc (goroutines ?s' ! j) = AtDone"
          by (simp_all add: unrivalled_def)
        have ne: "g_hash (goroutines s ! i) \<noteq> h"
        proof
          assume e: "g_hash (goroutines s ! i) = h"
          have "g_pc (goroutines ?s' ! length (goroutines s)) = AtDone"
            by (rule others) (use True e g gs in simp_all)
          then show False using gs by simp
        qed
        have "transfer_lookup s (g_hash (goroutines s ! i)) = Some (g_data (goroutines s ! i))"
          using own ne g tl by simp
        moreover have "g_pc (goroutines s ! j) = AtDone"
          if "j < length (goroutines s)" "j \<noteq> i"
            "g_hash (goroutines s ! j) = g_hash (goroutines s ! i)" for j
        proof -
          have "goroutines ?s' ! j = goroutines s ! j" using that(1) gs by (simp add: nth_append)
          moreover have "j < length (goroutines ?s')" using that(1) gs by simp
          ultimately show ?thesis using others[of j] that g by simp
        qed
        ultimately show ?thesis by (simp add: unrivalled_def)
      qed
      have st: "stored ?s' (goroutines ?s' ! i) = stored s (goroutines s ! i)"
        by (rule stored_cong) (simp_all add: Put_same g)
      show ?thesis
        by (rule write_ok_transfer[OF ok]) (use g u st in simp_all)
    next
      case False
      with i gs have "i = length (goroutines s)" by simp
      then have "goroutines ?s' ! i = ?new" using gs by simp
      with a show ?thesis by (simp add: write_ok_def)
    qed
    then show ?thesis by (simp add: write_inv_def)
  qed
qed

lemma write_inv_Get:
  assumes "write_inv s" and "Get s hash = Some (r, tr, s')"
  shows "write_inv s'"
proof -
  from Get_form[OF assms(2)] obtain c where s': "s' = s\<lparr>Cache := c\<rparr>" by blast
  have "unrivalled s' i = unrivalled s i" for i
    by (simp add: s' unrivalled_def transfer_lookup_def)
  moreover have "stored s' g = stored s g" for g by (simp add: s' stored_def)
  ultimately have "write_ok s' i = write_ok s i" for i
    by (simp add: write_ok_def s')
  with assms(1) show ?thesis by (simp add: write_inv_def s')
qed

lemma unrivalled_own:
  "unrivalled s i \<Longrightarrow>
   transfer_lookup s (g_hash (goroutines s ! i)) = Some (g_data (goroutines s ! i))"
  by (simp add: unrivalled_def)

lemma unrivalled_others:
  "unrivalled s i \<Longrightarrow> j < length (goroutines s) \<Longrightarrow> j \<noteq> i \<Longrightarrow>
   g_hash (goroutines s ! j) = g_hash (goroutines s ! i) \<Longrightarrow> g_pc (goroutines s ! j) = AtDone"
  by (simp add: unrivalled_def)

lemma unrivalled_update:
  assumes u: "unrivalled s' i" and gs: "goroutines s' = (goroutines s)[j := g']"
    and j: "j < length (goroutines s)" and i: "i < length (goroutines s)" and ij: "i \<noteq> j"
    and hash: "g_hash g' = g_hash (goroutines s ! j)"
    and fin: "g_pc g' = AtDone \<longrightarrow> transfer_lookup s' (g_hash g') = None"
    and tl: "\<And>k. k \<noteq> g_hash g' \<Longrightarrow> transfer_lookup s' k = transfer_lookup s k"
  shows "g_hash (goroutines s ! i) \<noteq> g_hash (goroutines s ! j) \<and> unrivalled s i"
proof -
  have gi: "goroutines s' ! i = goroutines s ! i" using gs ij by simp
  have gj: "goroutines s' ! j = g'" using gs j by simp
  have len: "length (goroutines s') = length (goroutines s)" using gs by simp
  have ne: "g_hash (goroutines s ! i) \<noteq> g_hash (goroutines s ! j)"
  proof
    assume e: "g_hash (goroutines s ! i) = g_hash (goroutines s ! j)"
    have "g_pc (goroutines s' ! j) = AtDone"
      by (rule unrivalled_others[OF u]) (use j ij len gi gj hash e in simp_all)
    with gj fin have "transfer_lookup s' (g_hash g') = None" by simp
    moreover from unrivalled_own[OF u] gi e hash
    have "transfer_lookup s' (g_hash g') \<noteq> None" by simp
    ultimately show False by simp
  qed
  have "transfer_lookup s (g_hash (goroutines s ! i)) = Some (g_data (goroutines s ! i))"
    using unrivalled_own[OF u] gi tl[of "g_hash (goroutines s ! i)"] ne hash by simp
  moreover have "g_pc (goroutines s ! m) = AtDone"
    if m: "m < length (goroutines s)" "m \<noteq> i"
      "g_hash (goroutines s ! m) = g_hash (goroutines s ! i)" for m
  proof -
    from m(3) ne have "m \<noteq> j" by auto
    then have "goroutines s' ! m = goroutines s ! m" using gs by simp
    with unrivalled_others[OF u, of m] m gi len show ?thesis by simp
  qed
  ultimately show ?thesis using ne by (simp add: unrivalled_def)
qed

lemma write_inv_AtPut:
  assumes inv: "write_inv s" and j: "j < length (goroutines s)"
    and pc: "g_pc (goroutines s ! j) = AtPut" and st: "goroutine_step j s = Some s'"
  shows "write_inv s'"
proof -
  let ?g = "goroutines s ! j"
  let ?p = "put s (g_hash ?g) (g_data ?g)"
  let ?g' = "?g\<lparr>g_err := fst ?p, g_pc := AtRecord\<rparr>"
  from goroutine_step_AtPut[OF j pc] st
  have s': "s' = (snd ?p)\<lparr>goroutines := (goroutines s)[j := ?g']\<rparr>" by simp
  have gs: "goroutines s' = (goroutines s)[j := ?g']" by (simp add: s')
  have tl: "\<And>k. transfer_lookup s' k = transfer_lookup s k"
    by (simp add: s' transfer_lookup_def)
  have pd: "Path s' = Path (snd ?p)" "disk s' = disk (snd ?p)" by (simp_all add: s')
  from inv j have okj: "write_ok s j" by (simp add: write_inv_def)
  have "write_ok s' i" if i: "i < length (goroutines s)" for i
  proof (cases "i = j")
    case True
    from okj have v: "valid_key (g_hash ?g)" by (simp add: write_ok_def)
    have "stored s' ?g'" if "fst ?p = None"
    proof -
      from put_then_get[OF that] have "stored (snd ?p) ?g'"
        by (simp add: stored_def content_def)
      moreover have "stored s' ?g' = stored (snd ?p) ?g'"
        by (rule stored_cong) (simp_all add: pd)
      ultimately show ?thesis by simp
    qed
    moreover have "fst ?p = None \<longrightarrow> g_hash ?g \<noteq> ''.'' \<and> g_hash ?g \<noteq> ''..''"
      using put_ok_named by blast
    moreover have "goroutines s' ! i = ?g'" using True gs j by simp
    ultimately show ?thesis using v by (simp add: write_ok_def)
  next
    case False
    from inv i have ok: "write_ok s i" by (simp add: write_inv_def)
    have g: "goroutines s' ! i = goroutines s ! i" using gs False by simp
    have prev: "g_hash (goroutines s ! i) \<noteq> g_hash ?g \<and> unrivalled s i" if u: "unrivalled s' i"
      by (rule unrivalled_update[OF u gs j i False]) (simp_all add: tl)
    have keep: "stored s' (goroutines s' ! i)"
      if "g_pc (goroutines s ! i) \<noteq> AtPut" "g_err (goroutines s ! i) = None" "unrivalled s' i"
        "stored s (goroutines s ! i)"
    proof -
      from ok that(1,2) have n: "valid_key (g_hash (goroutines s ! i))"
        "g_hash (goroutines s ! i) \<noteq> ''.''" "g_hash (goroutines s ! i) \<noteq> ''..''"
        by (simp_all add: write_ok_def)
      from okj have vj: "valid_key (g_hash ?g)" by (simp add: write_ok_def)
      from prev[OF that(3)] have ne: "g_hash ?g \<noteq> g_hash (goroutines s ! i)" by auto
      from that(4) have "get s (g_hash (goroutines s ! i)) =
          (Some (content (g_data (goroutines s ! i))), None)"
        by (simp add: stored_def content_def)
      from get_put_other[OF this n vj ne, of "g_data ?g"]
      have "stored (snd ?p) (goroutines s ! i)" by (simp add: stored_def content_def)
      moreover have "stored s' (goroutines s' ! i) = stored (snd ?p) (goroutines s ! i)"
        by (rule stored_cong) (simp_all add: pd g)
      ultimately show ?thesis by simp
    qed
    show ?thesis
      by (rule write_ok_transfer[OF ok]) (use g prev keep in auto)
  qed
  then show ?thesis by (simp add: write_inv_def gs)
qed

lemma write_inv_AtRecord:
  assumes inv: "write_inv s" and j: "j < length (goroutines s)"
    and pc: "g_pc (goroutines s ! j) = AtRecord" and st: "goroutine_step j s = Some s'"
  shows "write_inv s'"
proof -
  let ?g = "goroutines s ! j"
  let ?g' = "?g\<lparr>g_pc := AtRemove\<rparr>"
  from goroutine_step_AtRecord[OF j pc] st
  have gs: "goroutines s' = (goroutines s)[j := ?g']"
    and same: "Path s' = Path s" "disk s' = disk s" "inTransfer s' = inTransfer s"
    by (auto split: option.splits)
  have tl: "\<And>k. transfer_lookup s' k = transfer_lookup s k"
    by (simp add: same transfer_lookup_def)
  have "write_ok s' i" if i: "i < length (goroutines s)" for i
  proof -
    from inv i have ok: "write_ok s i" by (simp add: write_inv_def)
    have g: "g_hash (goroutines s' ! i) = g_hash (goroutines s ! i)"
      "g_data (goroutines s' ! i) = g_data (goroutines s ! i)"
      "g_err (goroutines s' ! i) = g_err (goroutines s ! i)"
      "g_pc (goroutines s' ! i) = (if i = j then AtRemove else g_pc (goroutines s ! i))"
      using gs i j by (simp_all add: nth_list_update)
    have prev: "unrivalled s i" if u: "unrivalled s' i"
    proof (cases "i = j")
      case True
      have "g_pc (goroutines s ! m) = AtDone"
        if m: "m < length (goroutines s)" "m \<noteq> i"
          "g_hash (goroutines s ! m) = g_hash (goroutines s ! i)" for m
      proof -
        from m(2) True have "goroutines s' ! m = goroutines s ! m" using gs by simp
        with unrivalled_others[OF u, of m] m g gs show ?thesis by simp
      qed
      with unrivalled_own[OF u] g tl show ?thesis by (simp add: unrivalled_def)
    next
      case False
      from unrivalled_update[OF u gs j i False] tl show ?thesis by simp
    qed
    have st: "stored s' (goroutines s' ! i) = stored s (goroutines s ! i)"
      by (rule stored_cong) (simp_all add: same g)
    show ?thesis
      by (rule write_ok_transfer[OF ok]) (use g prev st pc in \<open>auto split: if_splits\<close>)
  qed
  then show ?thesis by (simp add: write_inv_def gs)
qed

lemma write_inv_AtRemove:
  assumes inv: "write_inv s" and j: "j < length (goroutines s)"
    and pc: "g_pc (goroutines s ! j) = AtRemove" and st: "goroutine_step j s = Some s'"
  shows "write_inv s'"
proof -
  let ?g = "goroutines s ! j"
  let ?g' = "?g\<lparr>g_pc := AtDone\<rparr>"
  from goroutine_step_AtRemove[OF j pc] st
  have gs: "goroutines s' = (goroutines s)[j := ?g']"
    and same: "Path s' = Path s" "disk s' = disk s"
    and it: "inTransfer s' = map_option (\<lambda>m. m(g_hash ?g := None)) (inTransfer s)"
    by auto
  have tl: "transfer_lookup s' (g_hash ?g) = None"
    "\<And>k. k \<noteq> g_hash ?g \<Longrightarrow> transfer_lookup s' k = transfer_lookup s k"
    by (simp_all add: it transfer_lookup_def split: option.splits)
  have "write_ok s' i" if i: "i < length (goroutines s)" for i
  proof -
    from inv i have ok: "write_ok s i" by (simp add: write_inv_def)
    have g: "g_hash (goroutines s' ! i) = g_hash (goroutines s ! i)"
      "g_data (goroutines s' ! i) = g_data (goroutines s ! i)"
      "g_err (goroutines s' ! i) = g_err (goroutines s ! i)"
      "g_pc (goroutines s' ! i) = (if i = j then AtDone else g_pc (goroutines s ! i))"
      using gs i j by (simp_all add: nth_list_update)
    have prev: "unrivalled s i" if u: "unrivalled s' i" and "i \<noteq> j"
      using unrivalled_update[OF u gs j i that(2)] tl by simp
    have st: "stored s' (goroutines s' ! i) = stored s (goroutines s ! i)"
      by (rule stored_cong) (simp_all add: same g)
    show ?thesis
    proof (cases "i = j")
      case True
      with ok g pc show ?thesis by (simp add: write_ok_def)
    next
      case False
      show ?thesis
        by (rule write_ok_transfer[OF ok]) (use g prev st False in auto)
    qed
  qed
  then show ?thesis by (simp add: write_inv_def gs)
qed

lemma nth_remove:
  assumes "i < length (take j xs @ drop (Suc j) xs)" and "j < length xs"
  shows "(take j xs @ drop (Suc j) xs) ! i = xs ! (if i < j then i else Suc i)"
  using assms by (simp add: nth_append min_def)

lemma write_inv_AtDone:
  assumes inv: "write_inv s" and j: "j < length (goroutines s)"
    and pc: "g_pc (goroutines s ! j) = AtDone" and st: "goroutine_step j s = Some s'"
  shows "write_inv s'"
proof -
  let ?gs = "goroutines s"
  let ?gs' = "take j ?gs @ drop (Suc j) ?gs"
  from goroutine_step_AtDone[OF j pc] st
  have gs: "goroutines s' = ?gs'"
    and same: "Path s' = Path s" "disk s' = disk s" "inTransfer s' = inTransfer s"
    by auto
  have tl: "\<And>k. transfer_lookup s' k = transfer_lookup s k"
    by (simp add: same transfer_lookup_def)
  have len: "Suc (length ?gs') = length ?gs" using j by simp
  have "write_ok s' i" if i: "i < length ?gs'" for i
  proof -
    let ?i = "if i < j then i else Suc i"
    have g: "goroutines s' ! i = ?gs ! ?i" using nth_remove[OF i j] gs by simp
    have i': "?i < length ?gs" using i len by auto
    from inv i' have ok: "write_ok s ?i" by (simp add: write_inv_def)
    have prev: "unrivalled s ?i" if u: "unrivalled s' i"
    proof -
      have "g_pc (?gs ! m) = AtDone"
        if m: "m < length ?gs" "m \<noteq> ?i" "g_hash (?gs ! m) = g_hash (?gs ! ?i)" for m
      proof (cases "m = j")
        case True
        with pc show ?thesis by simp
      next
        case False
        let ?m = "if m < j then m else m - 1"
        have m': "?m < length ?gs'" using m(1) False len by auto
        have "(if ?m < j then ?m else Suc ?m) = m" using False by auto
        with nth_remove[OF m' j] have gm: "goroutines s' ! ?m = ?gs ! m" using gs by simp
        have "?m \<noteq> i" using m(2) False by (auto split: if_splits)
        with unrivalled_others[OF u, of ?m] m' gs gm g m(3) show ?thesis by simp
      qed
      with unrivalled_own[OF u] g tl show ?thesis by (simp add: unrivalled_def)
    qed
    have st: "stored s' (goroutines s' ! i) = stored s (?gs ! ?i)"
      by (rule stored_cong) (simp_all add: same g)
    show ?thesis
      by (rule write_ok_transfer[OF ok]) (use g prev st in auto)
  qed
  then show ?thesis by (simp add: write_inv_def gs)
qed

lemma write_inv_step:
  assumes "write_inv s" and "goroutine_step j s = Some s'"
  shows "write_inv s'"
proof -
  from goroutine_step_index[OF assms(2)] have j: "j < length (goroutines s)" .
  show ?thesis
  proof (cases "g_pc (goroutines s ! j)")
    case AtPut
    from write_inv_AtPut[OF assms(1) j this assms(2)] show ?thesis .
  next
    case AtRecord
    from write_inv_AtRecord[OF assms(1) j this assms(2)] show ?thesis .
  next
    case AtRemove
    from write_inv_AtRemove[OF assms(1) j this assms(2)] show ?thesis .
  next
    case AtDone
    from write_inv_AtDone[OF assms(1) j this assms(2)] show ?thesis .
  qed
qed

lemma evolves_write_inv: "evolves s0 s \<Longrightarrow> write_inv s0 \<Longrightarrow> write_inv s"
proof (induction rule: evolves.induct)
  case (start s)
  then show ?case .
next
  case (call_Put s s1 hash data)
  then show ?case by (simp add: write_inv_Put)
next
  case (call_Get s s1 hash r tr s2)
  then show ?case using write_inv_Get by blast
next
  case (background s s1 s2)
  from background.hyps(2) obtain j where "goroutine_step j s1 = Some s2"
    by (auto elim: bg_step.cases)
  with background show ?case using write_inv_step by blast
qed

section \<open>Facts about a recorded error\<close>







section \<open>Facts about a cache miss\<close>

text \<open>
  When the cache returns nil, \<^verbatim>\<open>Get\<close> goes on below the cache and returns what the store
  without the cache returns.
\<close>

lemma Get_miss:
  assumes "valid_key hash" and "Get s hash = Some (r, tr, s')"
    and none: "fst (cache_lookup s hash) = None"
  shows "tr \<noteq> [ReadCache] \<and> tr \<noteq> [] \<and> last tr \<noteq> ReadCache \<and>
         returned (Get (s\<lparr>Cache := None\<rparr>) hash) = Some r"
proof -
  let ?bare = "s\<lparr>Cache := None\<rparr>"
  have ct: "cache_trace s = [] \<or> cache_trace s = [ReadCache]"
    and tt: "transfer_trace s = [] \<or> transfer_trace s = [TransferCache]"
    and lt: "ledger_trace s = [] \<or> ledger_trace s = [Ledger]"
    by (simp_all add: cache_trace_def transfer_trace_def ledger_trace_def)
  have bare: "fst (cache_lookup ?bare hash) = None"
    "transfer_lookup ?bare hash = transfer_lookup s hash"
    "ledger_unknown ?bare hash = ledger_unknown s hash" "get ?bare hash = get s hash"
    "Cache (snd (cache_lookup ?bare hash)) = None"
    by (simp_all add: cache_lookup_def transfer_lookup_def ledger_unknown_def)
  show ?thesis
  proof (cases "transfer_lookup s hash")
    case (Some b)
    from Get_transfer[OF assms(1) none Some] assms(2)
    have "r = (b, None)" "tr = cache_trace s @ [TransferCache]" by simp_all
    moreover have "returned (Get ?bare hash) = Some (b, None)"
      using Some bare by (simp add: Get_unfold[OF assms(1)] returned_def)
    ultimately show ?thesis using ct by auto
  next
    case tl: None
    show ?thesis
    proof (cases "ledger_unknown s hash")
      case True
      from Get_unknown[OF assms(1) none tl True] assms(2)
      have "r = (None, Some ErrDoesNotExist)" "tr = cache_trace s @ transfer_trace s @ [Ledger]"
        by simp_all
      moreover have "returned (Get ?bare hash) = Some (None, Some ErrDoesNotExist)"
        using tl True bare by (simp add: Get_unfold[OF assms(1)] returned_def)
      ultimately show ?thesis using ct tt by auto
    next
      case False
      with none tl assms(2) have r: "r = get s hash"
        and tr: "tr = cache_trace s @ transfer_trace s @ ledger_trace s @ [DiskRead] \<or>
                 tr = cache_trace s @ transfer_trace s @ ledger_trace s @ [DiskRead, RetrievalHook]"
        by (auto simp: Get_unfold[OF assms(1)] split: option.splits cache.splits)
      have "Get ?bare hash = Some (get s hash,
          cache_trace ?bare @ transfer_trace ?bare @ ledger_trace ?bare @ [DiskRead],
          snd (cache_lookup ?bare hash))"
        using tl False bare by (auto simp: Get_unfold[OF assms(1)] split: option.splits)
      then have "returned (Get ?bare hash) = Some (get s hash)"
        by (simp add: returned_def)
      with r tr ct tt lt show ?thesis by auto
    qed
  qed
qed

text \<open>
  A goroutine does not touch the cache. A \<^verbatim>\<open>CacheAll\<close> that does not hold a hash does not
  come to hold it as long as the hash is written with nil data only.
\<close>

lemma goroutine_step_Cache:
  assumes "goroutine_step j s = Some s'"
  shows "Cache s' = Cache s"
proof -
  from goroutine_step_index[OF assms] have j: "j < length (goroutines s)" .
  show ?thesis
  proof (cases "g_pc (goroutines s ! j)")
    case AtPut
    from goroutine_step_AtPut[OF j this] assms show ?thesis by auto
  next
    case AtRecord
    from goroutine_step_AtRecord[OF j this] assms show ?thesis by (auto split: option.splits)
  next
    case AtRemove
    from goroutine_step_AtRemove[OF j this] assms show ?thesis by auto
  next
    case AtDone
    from goroutine_step_AtDone[OF j this] assms show ?thesis by auto
  qed
qed

lemma Put_CacheAll:
  assumes "Cache s = Some (CacheAllPtr c)" and "ca_m c k = None" and "hash = k \<longrightarrow> data = None"
  shows "\<exists>c'. Cache (snd (Put s hash data)) = Some (CacheAllPtr c') \<and> ca_m c' k = None"
  using assms by (auto simp: Put_def Let_def CacheAll_SeePut_def split: option.splits)

lemma evolves_nil_CacheAll:
  "evolves_nil k s x \<Longrightarrow> Cache s = Some (CacheAllPtr c0) \<Longrightarrow> ca_m c0 k = None \<Longrightarrow>
   \<exists>c. Cache x = Some (CacheAllPtr c) \<and> ca_m c k = None"
proof (induction rule: evolves_nil.induct)
  case (nil_start k s)
  then show ?case by simp
next
  case (nil_Put k s s1 hash data)
  from nil_Put.IH[OF nil_Put.prems] obtain c where "Cache s1 = Some (CacheAllPtr c)" "ca_m c k = None"
    by blast
  from Put_CacheAll[OF this nil_Put.hyps(2)] show ?case .
next
  case (nil_Get k s s1 hash r tr s2)
  from nil_Get.IH[OF nil_Get.prems] obtain c where c: "Cache s1 = Some (CacheAllPtr c)" "ca_m c k = None"
    by blast
  from Get_CacheAll_same[OF c(1) nil_Get.hyps(2)] c show ?case by simp
next
  case (nil_background k s s1 s2)
  from nil_background.hyps(2) obtain j where "goroutine_step j s1 = Some s2"
    by (auto elim: bg_step.cases)
  from goroutine_step_Cache[OF this] nil_background.IH[OF nil_background.prems] show ?case by simp
qed

lemma evolves_nil_bg_steps: "bg_step\<^sup>*\<^sup>* s s' \<Longrightarrow> evolves_nil k s0 s \<Longrightarrow> evolves_nil k s0 s'"
  by (induction rule: rtranclp_induct) (auto intro: evolves_nil.nil_background)

subsection \<open>A first write to a fresh store\<close>

lemma Put_accepted:
  assumes "valid_key hash" and "writeErr s = None" and "admits (Limiter s) hash data"
    and "\<not> knows s hash"
  shows "fst (Put s hash data) = None"
    and "goroutines (snd (Put s hash data)) =
           goroutines s @ [\<lparr>g_hash = hash, g_data = data, g_err = None, g_pc = AtPut\<rparr>]"
    and "activeWrites (snd (Put s hash data)) = activeWrites s + 1"
    and "inTransfer (snd (Put s hash data)) =
           Some ((case inTransfer s of None \<Rightarrow> Map.empty | Some m \<Rightarrow> m)(hash \<mapsto> data))"
    and "Cache (snd (Put s hash data)) = map_option (\<lambda>c. cache_SeePut c hash data) (Cache s)"
proof -
  have v: "hash \<noteq> []" "Separator \<notin> set hash" using assms(1) by (simp_all add: valid_key_def)
  have l: "\<not> (case Limiter s of None \<Rightarrow> False | Some lim \<Rightarrow> lim hash data)"
    using assms(3) by (simp add: admits_def split: option.splits)
  have k: "\<not> (case Inventory s of None \<Rightarrow> False | Some i \<Rightarrow> Has i hash)"
    using assms(4) by (simp add: knows_def)
  show "fst (Put s hash data) = None"
    using v assms(2) l k by (simp add: Put_def Let_def)
  show "goroutines (snd (Put s hash data)) =
           goroutines s @ [\<lparr>g_hash = hash, g_data = data, g_err = None, g_pc = AtPut\<rparr>]"
    using v assms(2) l k by (simp add: Put_def Let_def split: option.splits)
  show "activeWrites (snd (Put s hash data)) = activeWrites s + 1"
    using v assms(2) l k by (simp add: Put_def Let_def split: option.splits)
  show "inTransfer (snd (Put s hash data)) =
           Some ((case inTransfer s of None \<Rightarrow> Map.empty | Some m \<Rightarrow> m)(hash \<mapsto> data))"
    using v assms(2) l k by (simp add: Put_def Let_def split: option.splits)
  show "Cache (snd (Put s hash data)) = map_option (\<lambda>c. cache_SeePut c hash data) (Cache s)"
    using v assms(2) l k by (simp add: Put_def Let_def split: option.splits)
qed

lemma plain_key_valid: "plain_key k \<Longrightarrow> valid_key k"
  by (simp add: plain_key_def)

lemma fresh_put_sync:
  assumes "valid_key k" and "admits lim k v" and "\<forall>i. ivt = Some i \<longrightarrow> \<not> Has i k"
  shows "fst (Put (NewStore lim c ivt root fs) k v) = None"
    and "Sync_returns (snd (Put (NewStore lim c ivt root fs) k v))
           (Sync (snd (Put (NewStore lim c ivt root fs) k v)))"
    and "\<forall>s2. Sync_returns (snd (Put (NewStore lim c ivt root fs) k v)) s2 \<longrightarrow>
           s2 = Sync (snd (Put (NewStore lim c ivt root fs) k v))"
    and "Sync (snd (Put (NewStore lim c ivt root fs) k v)) =
     (case fst (put (snd (Put (NewStore lim c ivt root fs) k v)) k v) of
        Some e \<Rightarrow> (snd (put (snd (Put (NewStore lim c ivt root fs) k v)) k v))\<lparr>writeErr := Some e\<rparr>
      | None \<Rightarrow>
          (case ivt of
             None \<Rightarrow> snd (put (snd (Put (NewStore lim c ivt root fs) k v)) k v)
           | Some i \<Rightarrow> (snd (put (snd (Put (NewStore lim c ivt root fs) k v)) k v))
                         \<lparr>Inventory := Some (See i k)\<rparr>))
     \<lparr>inTransfer := Some Map.empty, activeWrites := 0, goroutines := []\<rparr>"
proof -
  let ?init = "NewStore lim c ivt root fs"
  let ?s1 = "snd (Put ?init k v)"
  have w: "writeErr ?init = None" and l: "admits (Limiter ?init) k v"
    and kn: "\<not> knows ?init k"
    using assms by (auto simp: NewStore_def knows_def split: option.splits)
  note acc = Put_accepted[OF assms(1) w l kn]
  show "fst (Put ?init k v) = None" by (rule acc(1))
  have gs: "goroutines ?s1 = [\<lparr>g_hash = k, g_data = v, g_err = None, g_pc = AtPut\<rparr>]"
    and aw: "activeWrites ?s1 = 1"
    and it: "inTransfer ?s1 = Some [k \<mapsto> v]"
    using acc(2,3,4) by (simp_all add: NewStore_def)
  have inv: "store_inv ?s1" by (intro store_inv_Put store_inv_New)
  show "Sync_returns ?s1 (Sync ?s1)" using inv by (rule Sync_returns_Sync)
  show "\<forall>s2. Sync_returns ?s1 s2 \<longrightarrow> s2 = Sync ?s1"
    using Sync_single[of ?s1] gs aw by simp
  have i1: "Inventory ?s1 = ivt" by (simp add: Put_same NewStore_def)
  show "Sync ?s1 =
     (case fst (put ?s1 k v) of
        Some e \<Rightarrow> (snd (put ?s1 k v))\<lparr>writeErr := Some e\<rparr>
      | None \<Rightarrow>
          (case ivt of
             None \<Rightarrow> snd (put ?s1 k v)
           | Some i \<Rightarrow> (snd (put ?s1 k v))\<lparr>Inventory := Some (See i k)\<rparr>))
     \<lparr>inTransfer := Some Map.empty, activeWrites := 0, goroutines := []\<rparr>"
    unfolding run_one_goroutine[OF gs]
    by (cases "fst (put ?s1 k v)") (simp_all add: i1 aw it)
qed

text \<open>
  After the first write of a plain key to a fresh store, and \<^verbatim>\<open>Sync\<close>: no error is
  recorded, the inventory knows the key, the transfer cache does not hold it, the cache
  has seen the \<^verbatim>\<open>Put\<close> and nothing else, and the file holds the bytes written.
\<close>

lemma fresh_put_sync_plain:
  assumes "plain_key k" and "fresh_disk fs root" and "admits lim k v"
    and "\<forall>i. ivt = Some i \<longrightarrow> \<not> Has i k"
  shows "writeErr (Sync (snd (Put (NewStore lim c ivt root fs) k v))) = None"
    and "Inventory (Sync (snd (Put (NewStore lim c ivt root fs) k v))) =
           map_option (\<lambda>i. See i k) ivt"
    and "Limiter (Sync (snd (Put (NewStore lim c ivt root fs) k v))) = lim"
    and "Cache (Sync (snd (Put (NewStore lim c ivt root fs) k v))) =
           map_option (\<lambda>c. cache_SeePut c k v) c"
    and "inTransfer (Sync (snd (Put (NewStore lim c ivt root fs) k v))) = Some Map.empty"
    and "get (Sync (snd (Put (NewStore lim c ivt root fs) k v))) k = (Some (content v), None)"
proof -
  let ?init = "NewStore lim c ivt root fs"
  let ?s1 = "snd (Put ?init k v)"
  let ?p = "snd (put ?s1 k v)"
  have v: "valid_key k" using assms(1) by (rule plain_key_valid)
  have w: "writeErr ?init = None" and l: "admits (Limiter ?init) k v"
    and kn: "\<not> knows ?init k"
    using assms by (auto simp: NewStore_def knows_def split: option.splits)
  note acc = Put_accepted[OF v w l kn]
  have f1: "Path ?s1 = root" "disk ?s1 = fs" "writeErr ?s1 = None" "Limiter ?s1 = lim"
    by (simp_all add: Put_same NewStore_def)
  have c1: "Cache ?s1 = map_option (\<lambda>c. cache_SeePut c k v) c"
    using acc(5) by (simp add: NewStore_def)
  have ok: "fst (put ?s1 k v) = None"
    using put_ok_fresh[OF assms(1), of ?s1 v] assms(2) f1 by simp
  from fresh_put_sync(4)[OF v assms(3,4), of c root fs] ok
  have S: "Sync ?s1 =
          (case ivt of None \<Rightarrow> ?p | Some i \<Rightarrow> ?p\<lparr>Inventory := Some (See i k)\<rparr>)
          \<lparr>inTransfer := Some Map.empty, activeWrites := 0, goroutines := []\<rparr>"
    by simp
  have i1: "Inventory ?s1 = ivt" by (simp add: Put_same NewStore_def)
  have p: "writeErr ?p = None" "Inventory ?p = ivt" "Limiter ?p = lim"
    "Cache ?p = map_option (\<lambda>c. cache_SeePut c k v) c"
    using f1 i1 c1 by simp_all
  show "writeErr (Sync ?s1) = None" unfolding S using p(1) by (cases ivt) simp_all
  show "Inventory (Sync ?s1) = map_option (\<lambda>i. See i k) ivt"
    unfolding S using p(2) by (cases ivt) simp_all
  show "Limiter (Sync ?s1) = lim" unfolding S using p(3) by (cases ivt) simp_all
  show "Cache (Sync ?s1) = map_option (\<lambda>c. cache_SeePut c k v) c"
    unfolding S using p(4) by (cases ivt) simp_all
  show "inTransfer (Sync ?s1) = Some Map.empty" unfolding S by simp
  have "Path (Sync ?s1) = Path ?p" "disk (Sync ?s1) = disk ?p"
    unfolding S by (cases ivt; simp)+
  then have "get (Sync ?s1) k = get ?p k" by (rule get_cong)
  with put_then_get[OF ok] show "get (Sync ?s1) k = (Some (content v), None)" by simp
qed

lemma plain_key_k: "plain_key ''k''"
  by (simp add: plain_key_def valid_key_def Separator_def)

lemma fresh_empty_disk: "fresh_disk empty_disk root"
  by (auto simp: fresh_disk_def empty_disk_def split: if_splits)

text \<open>
  A store at \<^verbatim>\<open>/foo\<close> on \<open>file_root_disk\<close>: the first \<^verbatim>\<open>Put\<close> of a plain key is accepted,
  its goroutine cannot make the directory and records \<open>ENOTDIR\<close>.
\<close>

lemma failed_write:
  assumes "plain_key k" and "admits lim k v"
  shows "writeErr (Sync (snd (Put (NewStore lim None None [''foo''] file_root_disk) k v)))
           = Some (OsError ENOTDIR)"
    and "Limiter (Sync (snd (Put (NewStore lim None None [''foo''] file_root_disk) k v))) = lim"
proof -
  let ?s1 = "snd (Put (NewStore lim None None [''foo''] file_root_disk) k v)"
  have v: "valid_key k" using assms(1) by (rule plain_key_valid)
  note first = fresh_put_sync[OF v assms(2), of None None "[''foo'']" file_root_disk]
  have f1: "Path ?s1 = [''foo'']" "disk ?s1 = file_root_disk" "Limiter ?s1 = lim"
    by (simp_all add: Put_same NewStore_def)
  have "hashDir ?s1 k = [''foo'', subdir_of k]"
    using hashDir_plain[OF assms(1), of ?s1] f1 by simp
  then have m: "MkdirAll file_root_disk (hashDir ?s1 k) = Inl ENOTDIR"
    by (simp add: MkdirAll_def file_root_disk_def)
  then have p: "put ?s1 k v = (Some (OsError ENOTDIR), ?s1)"
    using f1 by (simp add: put_def)
  from first(4) p show "writeErr (Sync ?s1) = Some (OsError ENOTDIR)" by simp
  from first(4) p f1 show "Limiter (Sync ?s1) = lim" by simp
qed

section \<open>Evaluation\<close>

text \<open>The definitions the examples unfold.\<close>

lemmas cmr_eval =
  NewCacheMostRecent_def CacheMostRecent_SeeGet_def CacheMostRecent_SeePut_def
  CacheMostRecent_Get_def MoveToFront_def entries_def Let_def

lemmas store_eval =
  Put_def NewStore_def valid_key_def Separator_def cache_lookup_def transfer_lookup_def
  ledger_unknown_def CacheAll_SeePut_def CacheAll_Get_def NewCacheAll_def
  NewDefaultInventory_def Has_def See_def returned_def returned_via_def store_after_def

lemmas disk_eval =
  get_def hashDir_def Join_def clean_step_def Open_def stat_def ReadAll_def
  empty_disk_def locked_disk_def file_root_disk_def

lemmas run_eval =
  goroutine_step_def put_def hashDir_def Join_def clean_step_def MkdirAll_def Create_def
  Write_def stat_def content_def Let_def eval_nat_numeral

section \<open>The round trip\<close>

text \<open>
  For a plain key the round trip holds: on a fresh store (a fresh disk, a fresh cache or
  none, a new inventory or none, a limiter that admits the write) \<^verbatim>\<open>Put\<close> returns nil,
  \<^verbatim>\<open>Sync\<close> returns, and after it \<^verbatim>\<open>Get\<close> returns the bytes written with a nil error.
\<close>

lemma round_trip_plain_key:
  assumes "plain_key k" and "fresh_disk fs root" and "admits lim k v" and "fresh_cache c"
    and "ivt = None \<or> ivt = Some NewDefaultInventory"
  shows "fst (Put (NewStore lim c ivt root fs) k v) = None \<and>
         Sync_returns (snd (Put (NewStore lim c ivt root fs) k v))
           (Sync (snd (Put (NewStore lim c ivt root fs) k v))) \<and>
         (\<forall>s2. Sync_returns (snd (Put (NewStore lim c ivt root fs) k v)) s2 \<longrightarrow>
            (\<exists>b. returned (Get s2 k) = Some (b, None) \<and> content b = content v))"
proof -
  let ?s1 = "snd (Put (NewStore lim c ivt root fs) k v)"
  let ?S = "Sync ?s1"
  have v: "valid_key k" using assms(1) by (rule plain_key_valid)
  have nk: "\<forall>i. ivt = Some i \<longrightarrow> \<not> Has i k"
    using assms(5) by (auto simp: NewDefaultInventory_def Has_def)
  note first = fresh_put_sync[OF v assms(3) nk, of c root fs]
  note after = fresh_put_sync_plain[OF assms(1,2,3) nk, of c]
  have tl: "transfer_lookup ?S k = None" using after(5) by (simp add: transfer_lookup_def)
  have lu: "\<not> ledger_unknown ?S k"
    using after(2) by (cases ivt) (simp_all add: ledger_unknown_def See_Has)
  have disk: "\<exists>b. returned (Get ?S k) = Some (b, None) \<and> content b = content v"
    if miss: "fst (cache_lookup ?S k) = None" and wf: "cache_wf (Cache ?S)"
  proof -
    from Get_disk[OF v miss tl lu wf] after(6) obtain tr s' where
      "Get ?S k = Some ((Some (content v), None), tr, s')" by auto
    then show ?thesis by (simp add: returned_def content_def)
  qed
  have "\<exists>b. returned (Get ?S k) = Some (b, None) \<and> content b = content v"
  proof (cases c)
    case None
    with after(4) have "Cache ?S = None" by simp
    then show ?thesis using disk by simp
  next
    case (Some c')
    show ?thesis
    proof (cases c')
      case (CacheAllPtr ca)
      with Some assms(4) have ca: "ca = NewCacheAll" by simp
      show ?thesis
      proof (cases v)
        case None
        with after(4) Some CacheAllPtr ca
        have "Cache ?S = Some (CacheAllPtr NewCacheAll)" by (simp add: CacheAll_SeePut_def)
        then have "fst (cache_lookup ?S k) = None" "cache_wf (Cache ?S)"
          by (simp_all add: cache_lookup_def CacheAll_Get_def NewCacheAll_def)
        then show ?thesis by (rule disk)
      next
        case (Some bs)
        with after(4) \<open>c = Some c'\<close> CacheAllPtr ca
        have "fst (cache_lookup ?S k) = Some bs"
          by (simp add: cache_lookup_def CacheAll_Get_def CacheAll_SeePut_def NewCacheAll_def)
        from Get_hit[OF v this] Some show ?thesis by (simp add: returned_def)
      qed
    next
      case (CacheMostRecentPtr cm)
      with Some assms(4) obtain n where n: "NewCacheMostRecent n = Some cm" by auto
      then have e: "cm_m cm k = None" by (auto simp: NewCacheMostRecent_def split: if_splits)
      then have "CacheMostRecent_SeePut cm k v = cm" by (simp add: CacheMostRecent_SeePut_def)
      with after(4) Some CacheMostRecentPtr
      have C: "Cache ?S = Some (CacheMostRecentPtr cm)" by simp
      have "fst (cache_lookup ?S k) = None"
        using C e by (simp add: cache_lookup_def CacheMostRecent_Get_def)
      moreover have "cache_wf (Cache ?S)" using C cmr_inv_New[OF n] by simp
      ultimately show ?thesis by (rule disk)
    qed
  qed
  with first(3) have "\<forall>s2. Sync_returns ?s1 s2 \<longrightarrow>
            (\<exists>b. returned (Get s2 k) = Some (b, None) \<and> content b = content v)"
    by auto
  with first(1,2) show ?thesis by blast
qed

text \<open>
  C1 is stated for every key that passes the check of \<^verbatim>\<open>Put\<close>. The key \<^verbatim>\<open>.\<close> passes it, and
  its file path is the directory of the store: \<^verbatim>\<open>Put\<close> returns nil, the goroutine fails to
  create the file and records the error, and after \<^verbatim>\<open>Sync\<close> the \<^verbatim>\<open>Get\<close> of the key returns
  the error of reading a directory.
\<close>

theorem round_trip_breaks_on_dot:
  "valid_key ''.'' \<and>
   fst (Put (NewStore None None None [''foo''] empty_disk) ''.'' (Some [1, 2, 3, 251])) = None \<and>
   Sync_returns
     (snd (Put (NewStore None None None [''foo''] empty_disk) ''.'' (Some [1, 2, 3, 251])))
     (Sync (snd (Put (NewStore None None None [''foo''] empty_disk) ''.''
                   (Some [1, 2, 3, 251])))) \<and>
   writeErr (Sync (snd (Put (NewStore None None None [''foo''] empty_disk) ''.''
                          (Some [1, 2, 3, 251])))) = Some (OsError EISDIR) \<and>
   returned (Get (Sync (snd (Put (NewStore None None None [''foo''] empty_disk) ''.''
                              (Some [1, 2, 3, 251])))) ''.'')
     = Some (Some [], Some (OsError EISDIR))"
proof -
  let ?d = "Some [1, 2, 3, 251] :: bytes"
  let ?s1 = "snd (Put (NewStore None None None [''foo''] empty_disk) ''.'' ?d)"
  let ?S = "Sync ?s1"
  have v: "valid_key ''.''" by (simp add: valid_key_def Separator_def)
  have a: "admits None ''.'' ?d" by (simp add: admits_def)
  note first = fresh_put_sync[OF v a, of None None "[''foo'']" empty_disk]
  have f1: "Path ?s1 = [''foo'']" "disk ?s1 = empty_disk"
    by (simp_all add: Put_same NewStore_def)
  have p: "put ?s1 ''.'' ?d =
      (Some (OsError EISDIR), ?s1\<lparr>disk := empty_disk([''foo''] \<mapsto> Dir)\<rparr>)"
    using f1 by (simp add: put_def hashDir_def Join_def clean_step_def MkdirAll_def Create_def
        stat_def empty_disk_def Separator_def Let_def)
  from first(4) p have S: "?S = ?s1\<lparr>disk := empty_disk([''foo''] \<mapsto> Dir),
      writeErr := Some (OsError EISDIR), inTransfer := Some Map.empty, activeWrites := 0,
      goroutines := []\<rparr>"
    by simp
  have w: "writeErr ?S = Some (OsError EISDIR)" unfolding S by simp
  have c: "Cache ?S = None" "Inventory ?S = None" "inTransfer ?S = Some Map.empty"
    unfolding S by (simp_all add: Put_def NewStore_def Separator_def)
  have g: "get ?S ''.'' = (Some [], Some (OsError EISDIR))"
    unfolding S using f1
    by (simp add: get_def hashDir_def Join_def clean_step_def Open_def stat_def ReadAll_def
        empty_disk_def Separator_def)
  have "Get ?S ''.'' = Some ((Some [], Some (OsError EISDIR)), [TransferCache, DiskRead], ?S)"
    using c g
    by (simp add: Get_unfold[OF v] cache_trace_def transfer_trace_def ledger_trace_def
        transfer_lookup_def ledger_unknown_def)
  then have "returned (Get ?S ''.'') = Some (Some [], Some (OsError EISDIR))"
    by (simp add: returned_def)
  with v first(1,2) w show ?thesis by simp
qed

section \<open>Get: the order of the layers\<close>

text \<open>
  C2. \<^verbatim>\<open>Get\<close> of a valid hash on a well-formed store returns, and the layers it consults
  are in the order read cache, transfer cache, ledger, disk, retrieval hook.
  A non-nil result of the cache is returned with the cache as the only layer consulted,
  whatever the transfer cache, the inventory and the disk hold. After a miss a hash in
  the transfer cache is returned without the ledger or the disk. After that an inventory
  that does not know the hash gives \<open>ErrDoesNotExist\<close> without a disk read, whatever the
  disk holds. Otherwise the file is read. The retrieval hook runs exactly when the disk
  read succeeded and the cache is a recency cache, and the store returned with the value
  already holds the cache after \<^verbatim>\<open>SeeGet\<close>.
\<close>

theorem Get_lookup_order:
  assumes "valid_key hash" and "cache_wf (Cache s)"
  shows "\<exists>r tr s'. Get s hash = Some (r, tr, s') \<and>
     subseq tr [ReadCache, TransferCache, Ledger, DiskRead, RetrievalHook] \<and>
     (\<forall>b. fst (cache_lookup s hash) = Some b \<longrightarrow>
        r = (Some b, None) \<and> tr = [ReadCache] \<and> s' = snd (cache_lookup s hash) \<and>
        (\<forall>m i fs. map_option fst (Get (s\<lparr>inTransfer := m, Inventory := i, disk := fs\<rparr>) hash)
           = Some (Some b, None))) \<and>
     (fst (cache_lookup s hash) = None \<longrightarrow>
        (\<forall>b. transfer_lookup s hash = Some b \<longrightarrow>
           r = (b, None) \<and> tr = cache_trace s @ [TransferCache] \<and>
           s' = snd (cache_lookup s hash)) \<and>
        (transfer_lookup s hash = None \<and> ledger_unknown s hash \<longrightarrow>
           r = (None, Some ErrDoesNotExist) \<and>
           tr = cache_trace s @ transfer_trace s @ [Ledger] \<and>
           s' = snd (cache_lookup s hash) \<and>
           (\<forall>fs. map_option fst (Get (s\<lparr>disk := fs\<rparr>) hash) = Some (None, Some ErrDoesNotExist))) \<and>
        (transfer_lookup s hash = None \<and> \<not> ledger_unknown s hash \<longrightarrow>
           r = get s hash \<and> DiskRead \<in> set tr)) \<and>
     (RetrievalHook \<in> set tr \<longleftrightarrow>
        DiskRead \<in> set tr \<and> snd r = None \<and> (\<exists>c. Cache s = Some (CacheMostRecentPtr c))) \<and>
     (if RetrievalHook \<in> set tr
      then \<exists>c c'. Cache (snd (cache_lookup s hash)) = Some (CacheMostRecentPtr c) \<and>
             CacheMostRecent_SeeGet c hash (fst r) = Some c' \<and>
             s' = snd (cache_lookup s hash)\<lparr>Cache := Some (CacheMostRecentPtr c')\<rparr>
      else s' = snd (cache_lookup s hash))"
proof -
  have ct: "cache_trace s = [] \<or> cache_trace s = [ReadCache]"
    and tt: "transfer_trace s = [] \<or> transfer_trace s = [TransferCache]"
    and lt: "ledger_trace s = [] \<or> ledger_trace s = [Ledger]"
    by (simp_all add: cache_trace_def transfer_trace_def ledger_trace_def)
  consider
      (hit) b where "fst (cache_lookup s hash) = Some b"
    | (transfer) b where "fst (cache_lookup s hash) = None" "transfer_lookup s hash = Some b"
    | (unknown) "fst (cache_lookup s hash) = None" "transfer_lookup s hash = None"
        "ledger_unknown s hash"
    | (disk) "fst (cache_lookup s hash) = None" "transfer_lookup s hash = None"
        "\<not> ledger_unknown s hash"
    by (cases "fst (cache_lookup s hash)"; cases "transfer_lookup s hash") auto
  then show ?thesis
  proof cases
    case hit
    have indep: "map_option fst (Get (s\<lparr>inTransfer := m, Inventory := i, disk := fs\<rparr>) hash)
           = Some (Some b, None)" for m i fs
    proof -
      have "fst (cache_lookup (s\<lparr>inTransfer := m, Inventory := i, disk := fs\<rparr>) hash) = Some b"
        using hit by (simp add: cache_lookup_def split: option.splits)
      from Get_hit[OF assms(1) this] show ?thesis by simp
    qed
    from Get_hit[OF assms(1) hit] hit indep show ?thesis by simp
  next
    case transfer
    have "subseq (cache_trace s @ [TransferCache])
            [ReadCache, TransferCache, Ledger, DiskRead, RetrievalHook]"
      using ct by auto
    with Get_transfer[OF assms(1) transfer] transfer ct show ?thesis by auto
  next
    case unknown
    have tr: "transfer_lookup (s\<lparr>disk := fs\<rparr>) hash = None"
      "ledger_unknown (s\<lparr>disk := fs\<rparr>) hash"
      "fst (cache_lookup (s\<lparr>disk := fs\<rparr>) hash) = None" for fs
      using unknown
      by (simp_all add: transfer_lookup_def ledger_unknown_def cache_lookup_def split: option.splits)
    have indep: "map_option fst (Get (s\<lparr>disk := fs\<rparr>) hash) = Some (None, Some ErrDoesNotExist)"
      for fs
      using Get_unknown[OF assms(1) tr(3) tr(1) tr(2), of fs] by simp
    have "subseq (cache_trace s @ transfer_trace s @ [Ledger])
            [ReadCache, TransferCache, Ledger, DiskRead, RetrievalHook]"
      using ct tt by auto
    moreover have "DiskRead \<notin> set (cache_trace s @ transfer_trace s @ [Ledger])"
      "RetrievalHook \<notin> set (cache_trace s @ transfer_trace s @ [Ledger])"
      using ct tt by auto
    ultimately show ?thesis
      using Get_unknown[OF assms(1) unknown] unknown indep by simp
  next
    case disk
    from Get_disk[OF assms(1) disk assms(2)] obtain tr s' where
      g: "Get s hash = Some (get s hash, tr, s')"
      and tr: "tr = cache_trace s @ transfer_trace s @ ledger_trace s @
                (if snd (get s hash) = None \<and> (\<exists>c. Cache s = Some (CacheMostRecentPtr c))
                 then [DiskRead, RetrievalHook] else [DiskRead])"
      and s': "if snd (get s hash) = None \<and> (\<exists>c. Cache s = Some (CacheMostRecentPtr c))
            then \<exists>c c'. Cache (snd (cache_lookup s hash)) = Some (CacheMostRecentPtr c) \<and>
                   CacheMostRecent_SeeGet c hash (fst (get s hash)) = Some c' \<and>
                   s' = snd (cache_lookup s hash)\<lparr>Cache := Some (CacheMostRecentPtr c')\<rparr>
            else s' = snd (cache_lookup s hash)"
      by blast
    have "prefix tr (cache_trace s @ transfer_trace s @ ledger_trace s @ [DiskRead, RetrievalHook])"
      by (simp add: tr)
    then have ord: "subseq tr [ReadCache, TransferCache, Ledger, DiskRead, RetrievalHook]"
      by (rule layers_ordered_prefix)
    have dr: "DiskRead \<in> set tr" by (simp add: tr)
    have hook: "RetrievalHook \<in> set tr \<longleftrightarrow>
        snd (get s hash) = None \<and> (\<exists>c. Cache s = Some (CacheMostRecentPtr c))"
      using ct tt lt by (auto simp: tr)
    from g ord dr hook s' disk show ?thesis by simp
  qed
qed

theorem Get_lookup_order_witness:
  "valid_key ''foo'' \<and>
   cache_wf (Cache (snd (Put (NewStore None (Some (CacheAllPtr NewCacheAll))
      (Some NewDefaultInventory) [''foo''] empty_disk) ''foo'' (Some [1])))) \<and>
   returned_via (Get (snd (Put (NewStore None (Some (CacheAllPtr NewCacheAll))
      (Some NewDefaultInventory) [''foo''] empty_disk) ''foo'' (Some [1]))) ''foo'')
     = Some ((Some [1], None), [ReadCache])"
proof -
  let ?s = "snd (Put (NewStore None (Some (CacheAllPtr NewCacheAll))
      (Some NewDefaultInventory) [''foo''] empty_disk) ''foo'' (Some [1]))"
  have v: "valid_key ''foo''" by (simp add: store_eval)
  have wf: "cache_wf (Cache ?s)" by (simp add: store_eval)
  have hit: "fst (cache_lookup ?s ''foo'') = Some [1]" by (simp add: store_eval)
  from Get_lookup_order[OF v wf] hit obtain r tr s' where
    "Get ?s ''foo'' = Some (r, tr, s')" "r = (Some [1], None)" "tr = [ReadCache]"
    by blast
  with v wf show ?thesis by (simp add: returned_via_def)
qed

section \<open>Get: errors of the disk read\<close>

text \<open>
  C3, as the code has it. When \<^verbatim>\<open>Get\<close> reads the disk, a file that cannot be opened, for
  whatever reason, gives \<open>ErrDoesNotExist\<close> with nil data; once the file is open, what
  \<^verbatim>\<open>ReadAll\<close> returns is returned as it is, its error included (the error of reading a
  directory is \<open>EISDIR\<close>).
\<close>

theorem disk_read_errors:
  assumes "Get s hash = Some ((data, err), tr, s')" and "DiskRead \<in> set tr"
  shows "valid_key hash \<and>
         (\<forall>e. Open (disk s) (Join (hashDir s hash) hash) = Inl e \<longrightarrow>
            data = None \<and> err = Some ErrDoesNotExist) \<and>
         (\<forall>fh. Open (disk s) (Join (hashDir s hash) hash) = Inr fh \<longrightarrow>
            (data, err) = ReadAll fh) \<and>
         (Open (disk s) (Join (hashDir s hash) hash) = Inr Dir \<longrightarrow>
            err = Some (OsError EISDIR))"
proof -
  have v: "valid_key hash"
  proof (rule ccontr)
    assume "\<not> valid_key hash"
    from Get_invalid[OF this, of s] assms show False by simp
  qed
  have ct: "cache_trace s = [] \<or> cache_trace s = [ReadCache]"
    and tt: "transfer_trace s = [] \<or> transfer_trace s = [TransferCache]"
    by (simp_all add: cache_trace_def transfer_trace_def)
  have "(data, err) = get s hash"
  proof (cases "fst (cache_lookup s hash)")
    case (Some b)
    from Get_hit[OF v Some] assms show ?thesis by simp
  next
    case None
    show ?thesis
    proof (cases "transfer_lookup s hash")
      case (Some b)
      from Get_transfer[OF v None Some] assms ct show ?thesis by auto
    next
      case tl: None
      show ?thesis
      proof (cases "ledger_unknown s hash")
        case True
        from Get_unknown[OF v None tl True] assms ct tt show ?thesis by auto
      next
        case False
        with None tl assms(1) show ?thesis
          by (auto simp: Get_unfold[OF v] split: option.splits cache.splits)
      qed
    qed
  qed
  then have g: "get s hash = (data, err)" by simp
  from g have "\<forall>e. Open (disk s) (Join (hashDir s hash) hash) = Inl e \<longrightarrow>
            data = None \<and> err = Some ErrDoesNotExist"
    by (auto simp: get_def)
  moreover from g have "\<forall>fh. Open (disk s) (Join (hashDir s hash) hash) = Inr fh \<longrightarrow>
            (data, err) = ReadAll fh"
    by (auto simp: get_def)
  moreover from g have "Open (disk s) (Join (hashDir s hash) hash) = Inr Dir \<longrightarrow>
            err = Some (OsError EISDIR)"
    by (auto simp: get_def ReadAll_def)
  ultimately show ?thesis using v by blast
qed

theorem disk_read_errors_witness:
  "Get (NewStore None None None [''foo''] empty_disk) ''abc''
     = Some ((None, Some ErrDoesNotExist), [DiskRead], NewStore None None None [''foo''] empty_disk) \<and>
   DiskRead \<in> set [DiskRead] \<and>
   Open (disk (NewStore None None None [''foo''] empty_disk))
     (Join (hashDir (NewStore None None None [''foo''] empty_disk) ''abc'') ''abc'') = Inl ENOENT"
proof -
  let ?s = "NewStore None None None [''foo''] empty_disk"
  have v: "valid_key ''abc''" by (simp add: store_eval)
  have o: "Open (disk ?s) (Join (hashDir ?s ''abc'') ''abc'') = Inl ENOENT"
    by (simp add: NewStore_def Separator_def disk_eval)
  have g: "get ?s ''abc'' = (None, Some ErrDoesNotExist)"
    using o by (simp add: get_def)
  have G: "Get ?s ''abc'' = Some ((None, Some ErrDoesNotExist), [DiskRead], ?s)"
    using g
    by (simp add: Get_unfold[OF v] cache_trace_def transfer_trace_def ledger_trace_def
        cache_lookup_def transfer_lookup_def ledger_unknown_def NewStore_def)
  have d: "DiskRead \<in> set [DiskRead]" by simp
  from disk_read_errors[OF G d] G o show ?thesis by simp
qed

text \<open>
  The claim has every failure but the absence of the file passed on. Here the file exists
  and the open fails with \<open>EACCES\<close>; \<^verbatim>\<open>Get\<close> answers \<open>ErrDoesNotExist\<close>.
\<close>

theorem disk_read_errors_counterexample:
  "valid_key ''abc'' \<and>
   Open (disk (NewStore None None None [''foo''] locked_disk))
     (Join (hashDir (NewStore None None None [''foo''] locked_disk) ''abc'') ''abc'') = Inl EACCES \<and>
   returned_via (Get (NewStore None None None [''foo''] locked_disk) ''abc'')
     = Some ((None, Some ErrDoesNotExist), [DiskRead]) \<and>
   Some ErrDoesNotExist \<noteq> Some (OsError EACCES)"
proof -
  let ?s = "NewStore None None None [''foo''] locked_disk"
  have v: "valid_key ''abc''" by (simp add: store_eval)
  have o: "Open (disk ?s) (Join (hashDir ?s ''abc'') ''abc'') = Inl EACCES"
    by (simp add: NewStore_def Separator_def disk_eval)
  have g: "get ?s ''abc'' = (None, Some ErrDoesNotExist)"
    using o by (simp add: get_def)
  have "Get ?s ''abc'' = Some ((None, Some ErrDoesNotExist), [DiskRead], ?s)"
    using g
    by (simp add: Get_unfold[OF v] cache_trace_def transfer_trace_def ledger_trace_def
        cache_lookup_def transfer_lookup_def ledger_unknown_def NewStore_def)
  with v o show ?thesis by (simp add: returned_via_def)
qed

section \<open>The recorded error of a write\<close>




section \<open>Put: a duplicate is rejected after Sync\<close>



section \<open>Put: a denied write\<close>

text \<open>
  C6, as the code has it. When the limiter of a store denies a valid hash and its data,
  \<^verbatim>\<open>Put\<close> returns the store as it was: transfer cache, cache, inventory, counter, goroutines
  and disk. The error is \<open>ErrLimiterDenied\<close>, unless an error of an earlier write is
  recorded: that check comes first, and the recorded error is returned.
\<close>

theorem denied_put_changes_nothing:
  assumes "valid_key hash" and "Limiter s = Some deny" and "deny hash data"
  shows "Put s hash data =
     ((case writeErr s of None \<Rightarrow> Some ErrLimiterDenied | Some e \<Rightarrow> Some e), s)"
  using assms by (auto simp: Put_def valid_key_def split: option.splits)

theorem denied_put_changes_nothing_witness:
  "valid_key ''x'' \<and> deny_x ''x'' (Some [1]) \<and>
   Put (NewStore (Some deny_x) (Some (CacheAllPtr NewCacheAll)) (Some NewDefaultInventory)
          [''foo''] empty_disk) ''x'' (Some [1])
     = (Some ErrLimiterDenied,
        NewStore (Some deny_x) (Some (CacheAllPtr NewCacheAll)) (Some NewDefaultInventory)
          [''foo''] empty_disk)"
proof -
  let ?s = "NewStore (Some deny_x) (Some (CacheAllPtr NewCacheAll)) (Some NewDefaultInventory)
          [''foo''] empty_disk"
  have v: "valid_key ''x''" by (simp add: store_eval)
  have l: "Limiter ?s = Some deny_x" by (simp add: NewStore_def)
  have d: "deny_x ''x'' (Some [1])" by (simp add: deny_x_def)
  have w: "writeErr ?s = None" by (simp add: NewStore_def)
  from denied_put_changes_nothing[OF v l d] w v d show ?thesis by simp
qed

text \<open>
  The claim has \<^verbatim>\<open>Put\<close> return \<open>ErrLimiterDenied\<close> whenever the limiter denies. Here the
  limiter denies the hash \<^verbatim>\<open>x\<close>, an earlier write has failed, and \<^verbatim>\<open>Put\<close> of \<^verbatim>\<open>x\<close> returns
  the recorded error.
\<close>

theorem denied_put_counterexample:
  "valid_key ''x'' \<and> deny_x ''x'' (Some [2]) \<and>
   Limiter (Sync (snd (Put (NewStore (Some deny_x) None None [''foo''] file_root_disk) ''k''
                         (Some [1])))) = Some deny_x \<and>
   fst (Put (Sync (snd (Put (NewStore (Some deny_x) None None [''foo''] file_root_disk) ''k''
                         (Some [1])))) ''x'' (Some [2])) = Some (OsError ENOTDIR) \<and>
   Some (OsError ENOTDIR) \<noteq> Some ErrLimiterDenied"
proof -
  let ?S = "Sync (snd (Put (NewStore (Some deny_x) None None [''foo''] file_root_disk) ''k''
                         (Some [1])))"
  have v: "valid_key ''x''" by (simp add: valid_key_def Separator_def)
  have a: "admits (Some deny_x) ''k'' (Some [1])" by (simp add: admits_def deny_x_def)
  note f = failed_write[OF plain_key_k a]
  have "fst (Put ?S ''x'' (Some [2])) = Some (OsError ENOTDIR)"
    using f(1) by (simp add: Put_def Separator_def)
  with v f(2) show ?thesis by (simp add: deny_x_def)
qed

section \<open>The recency cache: capacity and eviction\<close>

text \<open>
  C7. A recency cache made with a capacity \<open>N \<ge> 1\<close> exists, and after any sequence of
  \<^verbatim>\<open>SeeGet\<close>, \<^verbatim>\<open>SeePut\<close> and \<^verbatim>\<open>Get\<close> (none of which panics) it holds at most \<open>N\<close> entries in its
  list and at most \<open>N\<close> hashes in its index. A \<^verbatim>\<open>SeeGet\<close> on a cache that holds \<open>N\<close>
  entries leaves every entry but the last in place behind the new entry: the one entry
  that goes is the tail, and its hash leaves the index.
\<close>

theorem recency_cache_capacity:
  assumes "1 \<le> N"
  shows "\<exists>c0 c. NewCacheMostRecent N = Some c0 \<and> run_ops (Some c0) ops = Some c \<and>
           int (length (entries c)) \<le> N \<and> int (card (dom (cm_m c))) \<le> N \<and>
           (int (length (entries c)) = N \<longrightarrow>
              (\<exists>c'. CacheMostRecent_SeeGet c hash data = Some c' \<and>
                    entries c' = \<lparr>el_hash = hash, el_data = data\<rparr> # butlast (entries c) \<and>
                    cm_m c' = ((cm_m c)(el_hash (last (entries c)) := None))
                                (hash \<mapsto> last (cm_l c))))"
proof -
  from assms obtain c0 where c0: "NewCacheMostRecent N = Some c0" and cap0: "capacity c0 = N"
    by (auto simp: NewCacheMostRecent_def)
  from cmr_inv_run_ops[OF cmr_inv_New[OF c0], of ops] obtain c where
    c: "run_ops (Some c0) ops = Some c" "cmr_inv c" "capacity c = capacity c0" by blast
  have len: "int (length (entries c)) \<le> N"
    using c(2,3) cap0 by (simp add: cmr_inv_def entries_def)
  have "int (card (dom (cm_m c))) \<le> int (length (cm_l c))"
    using cmr_index_card[OF c(2)] by simp
  with len have card: "int (card (dom (cm_m c))) \<le> N" by (simp add: entries_def)
  have "\<exists>c'. CacheMostRecent_SeeGet c hash data = Some c' \<and>
          entries c' = \<lparr>el_hash = hash, el_data = data\<rparr> # butlast (entries c) \<and>
          cm_m c' = ((cm_m c)(el_hash (last (entries c)) := None))(hash \<mapsto> last (cm_l c))"
    if full: "int (length (entries c)) = N"
  proof -
    from full c(3) cap0 have nl: "\<not> int (length (cm_l c)) < capacity c"
      by (simp add: entries_def)
    from cmr_inv_SeeGet[OF c(2), of hash data] obtain c' where
      c': "CacheMostRecent_SeeGet c hash data = Some c'" by blast
    from entries_SeeGet_full[OF c(2) nl c'] c' show ?thesis by blast
  qed
  with c0 c(1) len card show ?thesis by blast
qed

theorem recency_cache_capacity_witness:
  "(1::int) \<le> 1 \<and>
   (\<exists>c0 c c'. NewCacheMostRecent 1 = Some c0 \<and>
      run_ops (Some c0) [OpSeeGet ''foo'' (Some [1]), OpGet ''foo'', OpSeePut ''foo'' (Some [2])]
        = Some c \<and>
      int (length (entries c)) = 1 \<and> int (card (dom (cm_m c))) \<le> 1 \<and>
      CacheMostRecent_SeeGet c ''bar'' (Some [3]) = Some c' \<and>
      entries c' = \<lparr>el_hash = ''bar'', el_data = Some [3]\<rparr> # butlast (entries c) \<and>
      entries c' = [\<lparr>el_hash = ''bar'', el_data = Some [3]\<rparr>])"
proof -
  let ?ops = "[OpSeeGet ''foo'' (Some [1]), OpGet ''foo'', OpSeePut ''foo'' (Some [2])]"
  from recency_cache_capacity[of 1 ?ops "''bar''" "Some [3]"] obtain c0 c where
    c0: "NewCacheMostRecent 1 = Some c0" and c: "run_ops (Some c0) ?ops = Some c"
    and card: "int (card (dom (cm_m c))) \<le> 1"
    and ev: "int (length (entries c)) = 1 \<longrightarrow>
              (\<exists>c'. CacheMostRecent_SeeGet c ''bar'' (Some [3]) = Some c' \<and>
                    entries c' = \<lparr>el_hash = ''bar'', el_data = Some [3]\<rparr> # butlast (entries c) \<and>
                    cm_m c' = ((cm_m c)(el_hash (last (entries c)) := None))
                                (''bar'' \<mapsto> last (cm_l c)))"
    by auto
  from c0 have "c0 = \<lparr>cm_m = Map.empty, cm_l = [],
                 cm_Value = (\<lambda>p. \<lparr>el_hash = [], el_data = None\<rparr>),
                 capacity = 1, cm_next = 0\<rparr>"
    by (simp add: NewCacheMostRecent_def)
  with c have es: "entries c = [\<lparr>el_hash = ''foo'', el_data = Some [2]\<rparr>]"
    by (auto simp: cmr_eval)
  with ev obtain c' where c': "CacheMostRecent_SeeGet c ''bar'' (Some [3]) = Some c'"
    "entries c' = \<lparr>el_hash = ''bar'', el_data = Some [3]\<rparr> # butlast (entries c)"
    by auto
  with es have "entries c' = [\<lparr>el_hash = ''bar'', el_data = Some [3]\<rparr>]" by simp
  with c0 c card es c' show ?thesis by auto
qed

text \<open>
  C8, as the code has it. On a cache the operations have produced, \<^verbatim>\<open>SeePut\<close> for a hash
  that is not indexed changes nothing; for an indexed hash it leaves the list and the
  hashes of the entries as they were and makes \<^verbatim>\<open>Get\<close> return the new data; \<^verbatim>\<open>Get\<close> of an
  indexed hash moves its element to the front. With capacity 2, after \<^verbatim>\<open>SeeGet\<close> of a and
  of b, \<^verbatim>\<open>SeePut\<close> of a and \<^verbatim>\<open>SeeGet\<close> of c, the cache holds c and b: the entry evicted is
  a, which the overwrite has not promoted. With a \<^verbatim>\<open>Get\<close> of a between the overwrite and
  the \<^verbatim>\<open>SeeGet\<close> of c, the entry evicted is b.
\<close>

theorem insertion_overwrite_not_promoted:
  assumes "run_ops (NewCacheMostRecent N) ops = Some c"
  shows "(cm_m c hash = None \<longrightarrow> CacheMostRecent_SeePut c hash data = c) \<and>
         (\<forall>p. cm_m c hash = Some p \<longrightarrow>
            cm_l (CacheMostRecent_SeePut c hash data) = cm_l c \<and>
            hashes (Some (CacheMostRecent_SeePut c hash data)) = hashes (Some c) \<and>
            fst (CacheMostRecent_Get (CacheMostRecent_SeePut c hash data) hash) = data \<and>
            cm_l (snd (CacheMostRecent_Get c hash)) = p # remove1 p (cm_l c) \<and>
            hd (hashes (Some (snd (CacheMostRecent_Get c hash)))) = hash) \<and>
         hashes (run_ops (NewCacheMostRecent 2)
           [OpSeeGet ''a'' va, OpSeeGet ''b'' vb, OpSeePut ''a'' va', OpSeeGet ''c'' vc])
           = [''c'', ''b''] \<and>
         indexed (run_ops (NewCacheMostRecent 2)
           [OpSeeGet ''a'' va, OpSeeGet ''b'' vb, OpSeePut ''a'' va', OpSeeGet ''c'' vc]) ''b'' \<and>
         \<not> indexed (run_ops (NewCacheMostRecent 2)
           [OpSeeGet ''a'' va, OpSeeGet ''b'' vb, OpSeePut ''a'' va', OpSeeGet ''c'' vc]) ''a'' \<and>
         hashes (run_ops (NewCacheMostRecent 2)
           [OpSeeGet ''a'' va, OpSeeGet ''b'' vb, OpSeePut ''a'' va', OpGet ''a'',
            OpSeeGet ''c'' vc]) = [''c'', ''a'']"
proof -
  from assms obtain c0 where c0: "NewCacheMostRecent N = Some c0"
    by (cases "NewCacheMostRecent N") auto
  from cmr_inv_run_ops[OF cmr_inv_New[OF c0], of ops] assms c0 have inv: "cmr_inv c" by simp
  have absent: "cm_m c hash = None \<longrightarrow> CacheMostRecent_SeePut c hash data = c"
    by (simp add: CacheMostRecent_SeePut_def)
  have present: "cm_l (CacheMostRecent_SeePut c hash data) = cm_l c \<and>
            hashes (Some (CacheMostRecent_SeePut c hash data)) = hashes (Some c) \<and>
            fst (CacheMostRecent_Get (CacheMostRecent_SeePut c hash data) hash) = data \<and>
            cm_l (snd (CacheMostRecent_Get c hash)) = p # remove1 p (cm_l c) \<and>
            hd (hashes (Some (snd (CacheMostRecent_Get c hash)))) = hash"
    if p: "cm_m c hash = Some p" for p
  proof -
    from inv p have mem: "p \<in> set (cm_l c)" and h: "el_hash (cm_Value c p) = hash"
      by (auto simp: cmr_inv_def)
    have "map (el_hash \<circ> (cm_Value c)(p := \<lparr>el_hash = hash, el_data = data\<rparr>)) (cm_l c)
        = map (el_hash \<circ> cm_Value c) (cm_l c)"
      using h by (intro map_cong) auto
    with p mem h show ?thesis
      by (simp add: CacheMostRecent_SeePut_def CacheMostRecent_Get_def MoveToFront_def entries_def)
  qed
  have scen1: "hashes (run_ops (NewCacheMostRecent 2)
           [OpSeeGet ''a'' va, OpSeeGet ''b'' vb, OpSeePut ''a'' va', OpSeeGet ''c'' vc])
           = [''c'', ''b'']"
    by (simp add: cmr_eval)
  have scen2: "indexed (run_ops (NewCacheMostRecent 2)
           [OpSeeGet ''a'' va, OpSeeGet ''b'' vb, OpSeePut ''a'' va', OpSeeGet ''c'' vc]) ''b''"
    by (simp add: cmr_eval)
  have scen3: "\<not> indexed (run_ops (NewCacheMostRecent 2)
           [OpSeeGet ''a'' va, OpSeeGet ''b'' vb, OpSeePut ''a'' va', OpSeeGet ''c'' vc]) ''a''"
    by (simp add: cmr_eval)
  have scen4: "hashes (run_ops (NewCacheMostRecent 2)
           [OpSeeGet ''a'' va, OpSeeGet ''b'' vb, OpSeePut ''a'' va', OpGet ''a'',
            OpSeeGet ''c'' vc]) = [''c'', ''a'']"
    by (simp add: cmr_eval)
  from absent present scen1 scen2 scen3 scen4 show ?thesis by blast
qed

theorem insertion_overwrite_not_promoted_witness:
  "run_ops (NewCacheMostRecent 2) [OpSeeGet ''a'' (Some [1]), OpSeeGet ''b'' (Some [2])] \<noteq> None \<and>
   hashes (run_ops (NewCacheMostRecent 2)
     [OpSeeGet ''a'' (Some [1]), OpSeeGet ''b'' (Some [2]), OpSeePut ''a'' (Some [3])])
     = [''b'', ''a''] \<and>
   hashes (run_ops (NewCacheMostRecent 2)
     [OpSeeGet ''a'' (Some [1]), OpSeeGet ''b'' (Some [2]), OpGet ''a'']) = [''a'', ''b''] \<and>
   hashes (run_ops (NewCacheMostRecent 2)
     [OpSeeGet ''a'' (Some [1]), OpSeeGet ''b'' (Some [2]), OpSeePut ''a'' (Some [3]),
      OpSeeGet ''c'' (Some [4])]) = [''c'', ''b'']"
proof -
  let ?ops = "[OpSeeGet ''a'' (Some [1]), OpSeeGet ''b'' (Some [2])]"
  obtain c where c: "run_ops (NewCacheMostRecent 2) ?ops = Some c"
    by (simp add: cmr_eval)
  then have m: "cm_m c ''a'' = Some 0" and l: "cm_l c = [1, 0]"
    by (auto simp: cmr_eval)
  from insertion_overwrite_not_promoted[OF c, of "''a''" "Some [3]" "Some [1]" "Some [2]" "Some [3]" "Some [4]"] m
  have "hashes (Some (CacheMostRecent_SeePut c ''a'' (Some [3]))) = hashes (Some c)"
    and "cm_l (snd (CacheMostRecent_Get c ''a'')) = 0 # remove1 0 (cm_l c)"
    and "hashes (run_ops (NewCacheMostRecent 2)
     [OpSeeGet ''a'' (Some [1]), OpSeeGet ''b'' (Some [2]), OpSeePut ''a'' (Some [3]),
      OpSeeGet ''c'' (Some [4])]) = [''c'', ''b'']"
    by auto
  then show ?thesis by (simp add: cmr_eval)
qed

text \<open>
  The sequence of C8 as the claim has it ends with b evicted. On the code a is evicted
  and b stays.
\<close>

theorem insertion_overwrite_counterexample:
  "hashes (run_ops (NewCacheMostRecent 2)
     [OpSeeGet ''a'' (Some [1]), OpSeeGet ''b'' (Some [2]), OpSeePut ''a'' (Some [3]),
      OpSeeGet ''c'' (Some [4])]) = [''c'', ''b''] \<and>
   indexed (run_ops (NewCacheMostRecent 2)
     [OpSeeGet ''a'' (Some [1]), OpSeeGet ''b'' (Some [2]), OpSeePut ''a'' (Some [3]),
      OpSeeGet ''c'' (Some [4])]) ''b'' \<and>
   \<not> indexed (run_ops (NewCacheMostRecent 2)
     [OpSeeGet ''a'' (Some [1]), OpSeeGet ''b'' (Some [2]), OpSeePut ''a'' (Some [3]),
      OpSeeGet ''c'' (Some [4])]) ''a''"
  by (simp add: cmr_eval)

section \<open>The goroutine: removal from the transfer cache comes last\<close>

text \<open>
  C9, as the code has it. In every store reached from a new store by calls of \<^verbatim>\<open>Put\<close> and
  \<^verbatim>\<open>Get\<close> and steps of goroutines in any order, every goroutine can take its next step; a
  step changes the transfer cache only when the goroutine is at its deferred deletion,
  and then it deletes the entry of the hash of the goroutine, whatever data the entry
  holds. A goroutine at its deferred deletion has its own disk write behind it: either
  the write failed and an error is recorded in \<open>writeErr\<close>, or the write succeeded, a disk
  read of its hash succeeds and the inventory, if one is configured, knows the hash. When
  the entry is still the data of this write and no other write of the hash is in flight,
  the disk read returns exactly the bytes of this write.
\<close>

theorem transfer_removal_comes_last:
  assumes "evolves (NewStore lim c ivt root fs) s" and "i < length (goroutines s)"
  shows "\<exists>s'. goroutine_step i s = Some s' \<and>
           (g_pc (goroutines s ! i) \<noteq> AtRemove \<longrightarrow> inTransfer s' = inTransfer s) \<and>
           (g_pc (goroutines s ! i) = AtRemove \<longrightarrow>
              inTransfer s' =
                map_option (\<lambda>m. m(g_hash (goroutines s ! i) := None)) (inTransfer s) \<and>
              (case g_err (goroutines s ! i) of
                 Some e \<Rightarrow> writeErr s \<noteq> None
               | None \<Rightarrow> readable s (g_hash (goroutines s ! i)) \<and>
                         registered s (g_hash (goroutines s ! i)) \<and>
                         (unrivalled s i \<longrightarrow> stored s (goroutines s ! i))))"
proof -
  from evolves_store_inv[OF assms(1) store_inv_New] have inv: "store_inv s" .
  from evolves_write_inv[OF assms(1) write_inv_New] have winv: "write_inv s" .
  from goroutine_step_total[OF assms(2)] obtain s' where st: "goroutine_step i s = Some s'"
    by blast
  have other: "g_pc (goroutines s ! i) \<noteq> AtRemove \<longrightarrow> inTransfer s' = inTransfer s"
    using goroutine_step_inTransfer[OF st] by blast
  have rem: "inTransfer s' =
                map_option (\<lambda>m. m(g_hash (goroutines s ! i) := None)) (inTransfer s) \<and>
              (case g_err (goroutines s ! i) of
                 Some e \<Rightarrow> writeErr s \<noteq> None
               | None \<Rightarrow> readable s (g_hash (goroutines s ! i)) \<and>
                         registered s (g_hash (goroutines s ! i)) \<and>
                         (unrivalled s i \<longrightarrow> stored s (goroutines s ! i)))"
    if pc: "g_pc (goroutines s ! i) = AtRemove"
  proof -
    from inv assms(2) have "goroutine_inv s (goroutines s ! i)" by (simp add: store_inv_def)
    with pc have "settled s (goroutines s ! i)" by (simp add: goroutine_inv_def)
    moreover from goroutine_step_AtRemove[OF assms(2) pc] st
    have "inTransfer s' = map_option (\<lambda>m. m(g_hash (goroutines s ! i) := None)) (inTransfer s)"
      by auto
    moreover from winv assms(2) pc
    have "g_err (goroutines s ! i) = None \<and> unrivalled s i \<longrightarrow> stored s (goroutines s ! i)"
      by (simp add: write_inv_def write_ok_def)
    ultimately show ?thesis by (auto simp: settled_def split: option.splits)
  qed
  from st other rem show ?thesis by blast
qed

text \<open>
  An instance: one write of the hash k to a fresh store with an inventory, its goroutine
  at the deferred deletion. The entry is its own, the file holds its byte and the
  inventory knows the hash.
\<close>

theorem transfer_removal_comes_last_witness:
  "evolves (NewStore None None (Some NewDefaultInventory) [''foo''] empty_disk)
     (run 2 (snd (Put (NewStore None None (Some NewDefaultInventory) [''foo''] empty_disk)
                  ''k'' (Some [1])))) \<and>
   map g_pc (goroutines (run 2 (snd (Put (NewStore None None (Some NewDefaultInventory) [''foo'']
           empty_disk) ''k'' (Some [1]))))) = [AtRemove] \<and>
   transfer_lookup (run 2 (snd (Put (NewStore None None (Some NewDefaultInventory) [''foo'']
           empty_disk) ''k'' (Some [1])))) ''k'' = Some (Some [1]) \<and>
   get (run 2 (snd (Put (NewStore None None (Some NewDefaultInventory) [''foo''] empty_disk)
                  ''k'' (Some [1])))) ''k'' = (Some [1], None) \<and>
   registered (run 2 (snd (Put (NewStore None None (Some NewDefaultInventory) [''foo''] empty_disk)
                  ''k'' (Some [1])))) ''k''"
proof -
  let ?init = "NewStore None None (Some NewDefaultInventory) [''foo''] empty_disk"
  let ?s = "run 2 (snd (Put ?init ''k'' (Some [1])))"
  have ev: "evolves ?init ?s"
    using evolves_bg_steps[OF bg_step_run evolves.call_Put[OF evolves.start]] .
  have gs: "goroutines ?s = [\<lparr>g_hash = ''k'', g_data = Some [1], g_err = None, g_pc = AtRemove\<rparr>]"
    by (simp add: store_eval run_eval empty_disk_def)
  then have i: "0 < length (goroutines ?s)" by simp
  have tl: "transfer_lookup ?s ''k'' = Some (Some [1])"
    by (simp add: store_eval run_eval empty_disk_def)
  have u: "unrivalled ?s 0" using gs tl by (simp add: unrivalled_def)
  from transfer_removal_comes_last[OF ev i] gs u
  have "stored ?s (goroutines ?s ! 0) \<and> registered ?s ''k''" by auto
  with gs have "get ?s ''k'' = (Some [1], None) \<and> registered ?s ''k''"
    by (simp add: stored_def)
  with ev gs tl show ?thesis by simp
qed

text \<open>
  C9 has the entry of every accepted write stay in the transfer cache until that write
  is on the disk. Here two writes of the hash k are accepted, the first with the byte
  1 and the second with the byte 2, on a fresh store with an inventory. The goroutine
  of the first write runs to its deferred deletion: the entry of the transfer cache is
  then the data of the second write. Its next step deletes that entry while the
  goroutine of the second write has not started its \<^verbatim>\<open>put\<close>, and \<^verbatim>\<open>Get\<close> returns the byte
  of the first write from the disk.
\<close>

theorem transfer_removal_counterexample:
  "fst (Put (NewStore None None (Some NewDefaultInventory) [''foo''] empty_disk) ''k'' (Some [1]))
     = None \<and>
   fst (Put (snd (Put (NewStore None None (Some NewDefaultInventory) [''foo''] empty_disk)
                   ''k'' (Some [1]))) ''k'' (Some [2])) = None \<and>
   map g_pc (goroutines (run 2 (snd (Put (snd (Put (NewStore None None
       (Some NewDefaultInventory) [''foo''] empty_disk) ''k'' (Some [1]))) ''k'' (Some [2])))))
     = [AtRemove, AtPut] \<and>
   transfer_lookup (run 2 (snd (Put (snd (Put (NewStore None None
       (Some NewDefaultInventory) [''foo''] empty_disk) ''k'' (Some [1]))) ''k'' (Some [2]))))
       ''k'' = Some (Some [2]) \<and>
   goroutine_step 0 (run 2 (snd (Put (snd (Put (NewStore None None
       (Some NewDefaultInventory) [''foo''] empty_disk) ''k'' (Some [1]))) ''k'' (Some [2]))))
     = Some (run 3 (snd (Put (snd (Put (NewStore None None
       (Some NewDefaultInventory) [''foo''] empty_disk) ''k'' (Some [1]))) ''k'' (Some [2])))) \<and>
   map g_pc (goroutines (run 3 (snd (Put (snd (Put (NewStore None None
       (Some NewDefaultInventory) [''foo''] empty_disk) ''k'' (Some [1]))) ''k'' (Some [2])))))
     = [AtDone, AtPut] \<and>
   map g_data (goroutines (run 3 (snd (Put (snd (Put (NewStore None None
       (Some NewDefaultInventory) [''foo''] empty_disk) ''k'' (Some [1]))) ''k'' (Some [2])))))
     = [Some [1], Some [2]] \<and>
   transfer_lookup (run 3 (snd (Put (snd (Put (NewStore None None
       (Some NewDefaultInventory) [''foo''] empty_disk) ''k'' (Some [1]))) ''k'' (Some [2]))))
       ''k'' = None \<and>
   returned (Get (run 3 (snd (Put (snd (Put (NewStore None None
       (Some NewDefaultInventory) [''foo''] empty_disk) ''k'' (Some [1]))) ''k'' (Some [2]))))
       ''k'') = Some (Some [1], None)"
proof -
  let ?init = "NewStore None None (Some NewDefaultInventory) [''foo''] empty_disk"
  let ?s1 = "snd (Put ?init ''k'' (Some [1]))"
  let ?s2 = "snd (Put ?s1 ''k'' (Some [2]))"
  have v: "valid_key ''k''" using plain_key_k by (rule plain_key_valid)
  have p1: "fst (Put ?init ''k'' (Some [1])) = None" by (simp add: store_eval)
  have p2: "fst (Put ?s1 ''k'' (Some [2])) = None" by (simp add: store_eval)
  have g2: "goroutines (run 2 ?s2) =
      [\<lparr>g_hash = ''k'', g_data = Some [1], g_err = None, g_pc = AtRemove\<rparr>,
       \<lparr>g_hash = ''k'', g_data = Some [2], g_err = None, g_pc = AtPut\<rparr>]"
    by (simp add: store_eval run_eval empty_disk_def)
  have t2: "transfer_lookup (run 2 ?s2) ''k'' = Some (Some [2])"
    by (simp add: store_eval run_eval empty_disk_def)
  have "goroutine_step 0 (run 2 ?s2) \<noteq> None"
    using goroutine_step_total[of 0 "run 2 ?s2"] g2 by auto
  then have st: "goroutine_step 0 (run 2 ?s2) = Some (run 3 ?s2)"
    using run_end[of 2 ?s2] by (auto simp: eval_nat_numeral)
  have g3: "goroutines (run 3 ?s2) =
      [\<lparr>g_hash = ''k'', g_data = Some [1], g_err = None, g_pc = AtDone\<rparr>,
       \<lparr>g_hash = ''k'', g_data = Some [2], g_err = None, g_pc = AtPut\<rparr>]"
    by (simp add: store_eval run_eval empty_disk_def)
  have t3: "transfer_lookup (run 3 ?s2) ''k'' = None"
    by (simp add: store_eval run_eval empty_disk_def)
  have c3: "fst (cache_lookup (run 3 ?s2) ''k'') = None"
    by (simp add: store_eval run_eval empty_disk_def)
  have l3: "\<not> ledger_unknown (run 3 ?s2) ''k''"
    by (simp add: store_eval run_eval empty_disk_def)
  have d3: "get (run 3 ?s2) ''k'' = (Some [1], None)"
    by (simp add: store_eval run_eval disk_eval)
  have w3: "cache_wf (Cache (run 3 ?s2))"
    by (simp add: store_eval run_eval empty_disk_def)
  from Get_disk[OF v c3 t3 l3 w3] d3
  have "returned (Get (run 3 ?s2) ''k'') = Some (Some [1], None)"
    by (auto simp: returned_def)
  with p1 p2 g2 t2 st g3 t3 show ?thesis by simp
qed

section \<open>Get: nil from the cache is a miss\<close>

text \<open>
  C10, as the code has it. When the cache returns nil for a valid hash, \<^verbatim>\<open>Get\<close> goes on to
  the layers below: the cache is not the last layer consulted, and the caller gets what
  a store without a cache would have returned. When the cache is the only layer
  consulted, the data returned is what the cache gave, it is not nil and the error is
  nil. \<^verbatim>\<open>CacheAll.SeePut\<close> with nil data leaves the cache as it was, and a recency cache that
  holds nil data for a hash returns nil for it, as it does for a hash it does not hold.
  A \<^verbatim>\<open>CacheAll\<close> is changed neither by a \<^verbatim>\<open>Get\<close> nor by a \<^verbatim>\<open>Put\<close> of nil data. A new
  \<^verbatim>\<open>CacheAll\<close> returns nil for every hash, and a \<^verbatim>\<open>CacheAll\<close> that does not hold the hash
  never serves it as long as the hash is written with nil data only, whatever other
  hashes are written and read and whatever the goroutines do in between: its answer
  stays nil, and every \<^verbatim>\<open>Get\<close> of the hash goes on below the cache. A recency cache does
  serve it: a disk read that succeeds returns a slice that is not nil, the retrieval
  hook stores it, and the next lookup of the hash in the cache finds it.
\<close>

theorem nil_is_cache_miss:
  assumes "valid_key hash" and "Get s hash = Some (r, tr, s')"
  shows "(fst (cache_lookup s hash) = None \<longrightarrow>
            tr \<noteq> [ReadCache] \<and> tr \<noteq> [] \<and> last tr \<noteq> ReadCache \<and>
            returned (Get (s\<lparr>Cache := None\<rparr>) hash) = Some r) \<and>
         (tr = [ReadCache] \<longrightarrow>
            fst r \<noteq> None \<and> snd r = None \<and> fst r = fst (cache_lookup s hash)) \<and>
         CacheAll_SeePut ca hash None = ca \<and>
         (\<forall>p. cm_m cm hash = Some p \<and> el_data (cm_Value cm p) = None \<longrightarrow>
            fst (CacheMostRecent_Get cm hash) = None) \<and>
         (cm_m cm hash = None \<longrightarrow> fst (CacheMostRecent_Get cm hash) = None) \<and>
         (\<forall>c. Cache s = Some (CacheAllPtr c) \<longrightarrow>
            s' = s \<and> Cache (snd (Put s hash None)) = Cache s) \<and>
         CacheAll_Get NewCacheAll hash = None \<and>
         (\<forall>s0 c0 x. Cache s0 = Some (CacheAllPtr c0) \<and> ca_m c0 hash = None \<and>
                   evolves_nil hash s0 x \<longrightarrow>
            fst (cache_lookup x hash) = None \<and>
            (\<forall>r' tr' x'. Get x hash = Some (r', tr', x') \<longrightarrow>
               tr' \<noteq> [ReadCache] \<and> last tr' \<noteq> ReadCache \<and>
               returned (Get (x\<lparr>Cache := None\<rparr>) hash) = Some r')) \<and>
         (RetrievalHook \<in> set tr \<longrightarrow>
            fst r \<noteq> None \<and> fst (cache_lookup s' hash) = fst r)"
proof -
  have miss: "tr \<noteq> [ReadCache] \<and> tr \<noteq> [] \<and> last tr \<noteq> ReadCache \<and>
      returned (Get (s\<lparr>Cache := None\<rparr>) hash) = Some r"
    if none: "fst (cache_lookup s hash) = None"
    using Get_miss[OF assms that] .
  have only: "fst r \<noteq> None \<and> snd r = None \<and> fst r = fst (cache_lookup s hash)"
    if "tr = [ReadCache]"
  proof (cases "fst (cache_lookup s hash)")
    case None
    with miss that show ?thesis by simp
  next
    case (Some b)
    from Get_hit[OF assms(1) Some] assms(2) Some show ?thesis by simp
  qed
  have all: "s' = s \<and> Cache (snd (Put s hash None)) = Cache s"
    if c: "Cache s = Some (CacheAllPtr c)" for c
  proof -
    have "Cache (snd (Put s hash None)) = Cache s"
      using c by (simp add: Put_def Let_def CacheAll_SeePut_def split: option.splits)
    with Get_CacheAll_same[OF c assms(2)] show ?thesis by simp
  qed
  have hook: "fst r \<noteq> None \<and> fst (cache_lookup s' hash) = fst r"
    if h: "RetrievalHook \<in> set tr"
  proof -
    from Get_hook_state[OF assms h] obtain c c' where
      r: "r = get s hash" "snd r = None"
      and c': "CacheMostRecent_SeeGet c hash (fst r) = Some c'"
      and s': "s' = snd (cache_lookup s hash)\<lparr>Cache := Some (CacheMostRecentPtr c')\<rparr>"
      by blast
    from r have "fst r \<noteq> None" using get_ok_data[of s hash] by simp
    moreover have "fst (cache_lookup s' hash) = fst r"
      using SeeGet_then_Get[OF c'] by (simp add: s' cache_lookup_def case_prod_beta)
    ultimately show ?thesis by simp
  qed
  have fresh: "CacheAll_Get NewCacheAll hash = None"
    by (simp add: CacheAll_Get_def NewCacheAll_def)
  have never: "fst (cache_lookup x hash) = None \<and>
            (\<forall>r' tr' x'. Get x hash = Some (r', tr', x') \<longrightarrow>
               tr' \<noteq> [ReadCache] \<and> last tr' \<noteq> ReadCache \<and>
               returned (Get (x\<lparr>Cache := None\<rparr>) hash) = Some r')"
    if a: "Cache s0 = Some (CacheAllPtr c0) \<and> ca_m c0 hash = None \<and> evolves_nil hash s0 x"
    for s0 c0 x
  proof -
    from a evolves_nil_CacheAll[of hash s0 x c0] obtain c' where
      "Cache x = Some (CacheAllPtr c')" "ca_m c' hash = None" by blast
    then have n: "fst (cache_lookup x hash) = None"
      by (simp add: cache_lookup_def CacheAll_Get_def)
    with Get_miss[OF assms(1) _ n] show ?thesis by blast
  qed
  have "CacheAll_SeePut ca hash None = ca" by (simp add: CacheAll_SeePut_def)
  moreover have "\<forall>p. cm_m cm hash = Some p \<and> el_data (cm_Value cm p) = None \<longrightarrow>
            fst (CacheMostRecent_Get cm hash) = None"
    by (simp add: CacheMostRecent_Get_def)
  moreover have "cm_m cm hash = None \<longrightarrow> fst (CacheMostRecent_Get cm hash) = None"
    by (simp add: CacheMostRecent_Get_def)
  ultimately show ?thesis using miss only all hook fresh never by blast
qed

text \<open>
  An instance: a recency cache that holds the hash \<^verbatim>\<open>foo\<close>, overwritten with nil by a
  \<^verbatim>\<open>Put\<close> that is still in the transfer cache. \<^verbatim>\<open>Get\<close> passes the cache and answers from the
  transfer cache, as the store without the cache does. And a new \<^verbatim>\<open>CacheAll\<close>: after the
  \<^verbatim>\<open>Put\<close> of the hash with nil data and \<^verbatim>\<open>Sync\<close> the cache still returns nil for it.
\<close>

theorem nil_is_cache_miss_witness:
  "valid_key ''foo'' \<and>
   returned_via (Get (snd (Put (NewStore None
       (map_option CacheMostRecentPtr
          (run_ops (NewCacheMostRecent 1) [OpSeeGet ''foo'' (Some [1])]))
       None [''foo''] empty_disk) ''foo'' None)) ''foo'')
     = Some ((None, None), [ReadCache, TransferCache]) \<and>
   returned (Get ((snd (Put (NewStore None
       (map_option CacheMostRecentPtr
          (run_ops (NewCacheMostRecent 1) [OpSeeGet ''foo'' (Some [1])]))
       None [''foo''] empty_disk) ''foo'' None))\<lparr>Cache := None\<rparr>) ''foo'')
     = Some (None, None) \<and>
   evolves_nil ''foo'' (NewStore None (Some (CacheAllPtr NewCacheAll)) None [''foo''] empty_disk)
     (Sync (snd (Put (NewStore None (Some (CacheAllPtr NewCacheAll)) None [''foo''] empty_disk)
                  ''foo'' None))) \<and>
   fst (cache_lookup
     (Sync (snd (Put (NewStore None (Some (CacheAllPtr NewCacheAll)) None [''foo''] empty_disk)
                  ''foo'' None))) ''foo'') = None"
proof -
  let ?s = "snd (Put (NewStore None
       (map_option CacheMostRecentPtr
          (run_ops (NewCacheMostRecent 1) [OpSeeGet ''foo'' (Some [1])]))
       None [''foo''] empty_disk) ''foo'' None)"
  let ?init = "NewStore None (Some (CacheAllPtr NewCacheAll)) None [''foo''] empty_disk"
  let ?x = "Sync (snd (Put ?init ''foo'' None))"
  have v: "valid_key ''foo''" by (simp add: store_eval)
  have c: "fst (cache_lookup ?s ''foo'') = None"
    by (simp add: store_eval cmr_eval)
  have t: "transfer_lookup ?s ''foo'' = Some None"
    by (simp add: store_eval cmr_eval)
  have ct: "cache_trace ?s = [ReadCache]"
    by (simp add: cache_trace_def store_eval cmr_eval)
  have G: "Get ?s ''foo'' = Some ((None, None), [ReadCache, TransferCache], snd (cache_lookup ?s ''foo''))"
    using Get_transfer[OF v c t] ct by simp
  have "evolves_nil ''foo'' ?init (snd (Put ?init ''foo'' None))"
    by (rule evolves_nil.nil_Put[OF evolves_nil.nil_start]) simp
  from evolves_nil_bg_steps[OF bg_step_run this]
  have en: "evolves_nil ''foo'' ?init ?x" by (simp add: Sync_def)
  have i: "Cache ?init = Some (CacheAllPtr NewCacheAll)" "ca_m NewCacheAll ''foo'' = None"
    by (simp_all add: NewStore_def NewCacheAll_def)
  from nil_is_cache_miss[OF v G] c i en
  have "returned (Get (?s\<lparr>Cache := None\<rparr>) ''foo'') = Some (None, None) \<and>
        fst (cache_lookup ?x ''foo'') = None" by blast
  with v G en show ?thesis by (simp add: returned_via_def)
qed

text \<open>
  The claim has every \<^verbatim>\<open>Get\<close> of a key with a nil payload go on to the layers below the
  cache. Here the key k is written with nil data to a fresh store with a recency cache.
  After \<^verbatim>\<open>Sync\<close> the first \<^verbatim>\<open>Get\<close> reads the file and the hook caches the empty slice read;
  the second \<^verbatim>\<open>Get\<close> is answered by the cache alone.
\<close>

theorem nil_is_cache_miss_counterexample:
  "fst (Put (NewStore None (map_option CacheMostRecentPtr (NewCacheMostRecent 1)) None
          [''foo''] empty_disk) ''k'' None) = None \<and>
   returned_via (Get (Sync (snd (Put (NewStore None
       (map_option CacheMostRecentPtr (NewCacheMostRecent 1)) None [''foo''] empty_disk)
       ''k'' None))) ''k'')
     = Some ((Some [], None), [ReadCache, TransferCache, DiskRead, RetrievalHook]) \<and>
   returned_via (Get (store_after (Get (Sync (snd (Put (NewStore None
       (map_option CacheMostRecentPtr (NewCacheMostRecent 1)) None [''foo''] empty_disk)
       ''k'' None))) ''k'')
     (Sync (snd (Put (NewStore None
       (map_option CacheMostRecentPtr (NewCacheMostRecent 1)) None [''foo''] empty_disk)
       ''k'' None)))) ''k'')
     = Some ((Some [], None), [ReadCache])"
proof -
  let ?c = "map_option CacheMostRecentPtr (NewCacheMostRecent 1)"
  let ?cm = "\<lparr>cm_m = Map.empty, cm_l = [], cm_Value = (\<lambda>p. \<lparr>el_hash = [], el_data = None\<rparr>),
             capacity = 1, cm_next = 0\<rparr>"
  let ?S = "Sync (snd (Put (NewStore None ?c None [''foo''] empty_disk) ''k'' None))"
  have v: "valid_key ''k''" using plain_key_k by (rule plain_key_valid)
  have a: "admits None ''k'' None" by (simp add: admits_def)
  have nk: "\<forall>i. (None :: DefaultInventory option) = Some i \<longrightarrow> \<not> Has i ''k''" by simp
  note first = fresh_put_sync(1)[OF v a nk, of ?c "[''foo'']" empty_disk]
  note after = fresh_put_sync_plain[OF plain_key_k fresh_empty_disk[of "[''foo'']"] a nk, of ?c]
  have C: "Cache ?S = Some (CacheMostRecentPtr ?cm)"
    using after(4) by (simp add: cmr_eval)
  have cl: "cache_lookup ?S ''k'' = (None, ?S)"
  proof -
    have "snd (cache_lookup ?S ''k'') = ?S\<lparr>Cache := Cache ?S\<rparr>"
      using C by (simp add: cache_lookup_def cmr_eval)
    moreover have "fst (cache_lookup ?S ''k'') = None"
      using C by (simp add: cache_lookup_def cmr_eval)
    ultimately show ?thesis by (simp add: prod_eq_iff)
  qed
  have tl: "transfer_lookup ?S ''k'' = None" "transfer_trace ?S = [TransferCache]"
    using after(5) by (simp_all add: transfer_lookup_def transfer_trace_def)
  have lu: "\<not> ledger_unknown ?S ''k''" "ledger_trace ?S = []"
    using after(2) by (simp_all add: ledger_unknown_def ledger_trace_def)
  have ct: "cache_trace ?S = [ReadCache]" using C by (simp add: cache_trace_def)
  have g: "get ?S ''k'' = (Some [], None)" using after(6) by (simp add: content_def)
  let ?cm' = "\<lparr>cm_m = [''k'' \<mapsto> 0], cm_l = [0],
      cm_Value = (\<lambda>p. \<lparr>el_hash = [], el_data = None\<rparr>)(0 := \<lparr>el_hash = ''k'', el_data = Some []\<rparr>),
      capacity = 1, cm_next = Suc 0\<rparr>"
  let ?S' = "?S\<lparr>Cache := Some (CacheMostRecentPtr ?cm')\<rparr>"
  have G1: "Get ?S ''k'' = Some ((Some [], None),
      [ReadCache, TransferCache, DiskRead, RetrievalHook], ?S')"
    unfolding Get_unfold[OF v] using cl tl lu ct g C
    by (simp add: cmr_eval)
  have hit: "fst (cache_lookup ?S' ''k'') = Some []"
    by (simp add: cache_lookup_def cmr_eval)
  from Get_hit[OF v hit] have G2: "returned_via (Get ?S' ''k'') = Some ((Some [], None), [ReadCache])"
    by (simp add: returned_via_def)
  from G1 have "store_after (Get ?S ''k'') ?S = ?S'" by (simp add: store_after_def)
  with first G1 G2 show ?thesis by (simp add: returned_via_def)
qed

end
